theory Spec2Isabelle
  imports Complex_Main "HOL-Library.AList" "HOL-Library.Multiset"
begin

section \<open>Values that cross the interface of PriorityQueue.js\<close>

text \<open>
  The three exceptions the class can raise. \<open>TypeError\<close> is thrown by \<open>isNumber\<close> and by
  \<open>forEach\<close>, and also by the JavaScript runtime when a property of \<open>undefined\<close> is read.
\<close>

datatype error = TypeError | RangeError | ReferenceError

text \<open>
  A value passed where the source expects a number. \<open>Num x\<close> is a finite number;
  \<open>NotFiniteNumber\<close> is everything \<open>isNumber\<close> rejects (a value that is not of type
  number, NaN, or an infinity). A finite double is a real number, and the code only
  compares priorities and uses them as property keys, so \<open>real\<close> carries them exactly
  (\<open>0\<close> and \<open>-0\<close> are equal, compare equal and give the same property key).
\<close>

datatype num_arg = Num real | NotFiniteNumber

text \<open>
  A value stored in \<open>prioritiesObj\<close>: an integer count, or NaN, which
  \<open>decreasePriority\<close> writes when it decrements a missing property.
\<close>

datatype count = Cnt int | NaN

text \<open>
  The objects \<open>{element, priority}\<close> created by \<open>add\<close> are compared by identity and
  mutated in place, and they are shared between \<open>heapArr\<close>, \<open>references\<close>,
  \<open>deletedElements\<close> and the caller. They live in an object store \<open>objs\<close>; a
  reference is the address of an object in it. An address that is not (yet) allocated
  stands for any value the container did not create.
\<close>

type_synonym ref = nat

record 'a entry =
  element :: 'a
  priority :: real

text \<open>
  The fields of the class, and the object store. \<open>counterDequeuedElements\<close> is a
  JavaScript number that is only ever incremented by one; it is a natural number here
  (beyond \<open>2^53\<close> the increment of a double stops changing the value, it never lowers
  it).
\<close>

record 'a pq =
  heapArr :: "ref list"
  counterDequeuedElements :: nat
  prioritiesObj :: "(real \<times> count) list"
  references :: "ref set"
  deletedElements :: "ref set"
  objs :: "'a entry list"

definition new_pq :: "'a pq" where
  "new_pq = \<lparr>heapArr = [], counterDequeuedElements = 0, prioritiesObj = [],
             references = {}, deletedElements = {}, objs = []\<rparr>"

definition prio :: "'a pq \<Rightarrow> ref \<Rightarrow> real" where
  "prio s r = priority (objs s ! r)"

section \<open>Private helpers\<close>

definition isNumber :: "num_arg \<Rightarrow> error + real" where
  "isNumber num = (case num of Num x \<Rightarrow> Inr x | NotFiniteNumber \<Rightarrow> Inl TypeError)"

text \<open>
  \<open>increasePriority\<close>: a truthy count (defined, not 0, not NaN) is incremented, anything
  else is set to 1.
\<close>

definition increasePriority :: "real \<Rightarrow> (real \<times> count) list \<Rightarrow> (real \<times> count) list" where
  "increasePriority p h =
     (case map_of h p of
        Some (Cnt n) \<Rightarrow> if n \<noteq> 0 then AList.update p (Cnt (n + 1)) h
                        else AList.update p (Cnt 1) h
      | _ \<Rightarrow> AList.update p (Cnt 1) h)"

text \<open>
  \<open>decreasePriority\<close>: a count that is exactly 1 is deleted; otherwise the property is
  decremented, and decrementing \<open>undefined\<close> or NaN stores NaN.
\<close>

definition decreasePriority :: "real \<Rightarrow> (real \<times> count) list \<Rightarrow> (real \<times> count) list" where
  "decreasePriority p h =
     (case map_of h p of
        Some (Cnt n) \<Rightarrow> if n = 1 then AList.delete p h
                        else AList.update p (Cnt (n - 1)) h
      | _ \<Rightarrow> AList.update p NaN h)"

text \<open>The first index holding a given value, as both scans of the source compute it.\<close>

fun index_of :: "'b list \<Rightarrow> 'b \<Rightarrow> nat option" where
  "index_of [] r = None"
| "index_of (x # xs) r = (if x = r then Some 0 else map_option Suc (index_of xs r))"

definition getIndexByReference :: "ref \<Rightarrow> 'a pq \<Rightarrow> error + nat" where
  "getIndexByReference elementRef s =
     (case index_of (heapArr s) elementRef of
        Some i \<Rightarrow> Inr i
      | None \<Rightarrow> Inl ReferenceError)"

text \<open>\<open>Array.prototype.findIndex\<close> with an identity test: \<open>-1\<close> when nothing matches.\<close>

definition findIndex :: "ref list \<Rightarrow> ref \<Rightarrow> int" where
  "findIndex h elementRef = (case index_of h elementRef of Some i \<Rightarrow> int i | None \<Rightarrow> - 1)"

definition getValueByReference :: "ref \<Rightarrow> 'a pq \<Rightarrow> ref option" where
  "getValueByReference elementRef s =
     (if elementRef \<in> references s then Some elementRef else None)"

subsection \<open>The two sift loops\<close>

text \<open>
  \<open>bubbleUp\<close>: the loop body for an index inside the array. \<open>P\<close> reads the priority of
  an object.
\<close>

function bubbleUp_loop :: "(ref \<Rightarrow> real) \<Rightarrow> ref \<Rightarrow> ref list \<Rightarrow> nat \<Rightarrow> ref list" where
  "bubbleUp_loop P newElement h index =
     (if index = 0 then h
      else let parentIndex = (index - 1) div 2;
               parentElem = h ! parentIndex
           in if P parentElem \<ge> P newElement then h
              else bubbleUp_loop P newElement
                     (h[parentIndex := newElement, index := parentElem]) parentIndex)"
  by pat_completeness auto
termination
  by (relation "measure (\<lambda>(P, e, h, i). i)") auto

text \<open>
  With a negative index the parent index is negative too, \<open>heapArr[parentIndex]\<close> is
  \<open>undefined\<close>, and reading \<open>parentElem.priority\<close> throws a TypeError before anything
  is written. The two call sites pass \<open>length - 1\<close> after a push, or the result of
  \<open>findIndex\<close>, so the index is never beyond the array.
\<close>

definition bubbleUp :: "int \<Rightarrow> 'a pq \<Rightarrow> error + 'a pq" where
  "bubbleUp index s =
     (if index < 0 then Inl TypeError
      else Inr (s\<lparr>heapArr :=
                  bubbleUp_loop (prio s) (heapArr s ! nat index) (heapArr s) (nat index)\<rparr>))"

text \<open>
  The choice of \<open>ourPriorityIndex\<close> in one round of \<open>bubbleDown\<close>: the left child if it
  is strictly greater than the current entry, then the right child if it is strictly
  greater than that choice.
\<close>

definition ourPriorityIndex :: "(ref \<Rightarrow> real) \<Rightarrow> ref list \<Rightarrow> nat \<Rightarrow> nat" where
  "ourPriorityIndex P h index =
     (let leftChildIndex = 2 * index + 1;
          rightChildIndex = 2 * index + 2;
          afterLeft = (if leftChildIndex < length h \<and> P (h ! leftChildIndex) > P (h ! index)
                       then leftChildIndex else index)
      in if rightChildIndex < length h \<and> P (h ! rightChildIndex) > P (h ! afterLeft)
         then rightChildIndex else afterLeft)"

function bubbleDown_loop :: "(ref \<Rightarrow> real) \<Rightarrow> ref \<Rightarrow> ref list \<Rightarrow> nat \<Rightarrow> ref list" where
  "bubbleDown_loop P actualElement h index =
     (let chosen = ourPriorityIndex P h index
      in if chosen = index then h
         else bubbleDown_loop P actualElement
                (h[index := h ! chosen, chosen := actualElement]) chosen)"
  by pat_completeness auto
termination
proof (relation "measure (\<lambda>(P, e, h, i). length h - i)")
  show "wf (measure (\<lambda>(P, e, h, i). length h - i))" by simp
next
  fix P :: "ref \<Rightarrow> real" and actualElement :: ref and h :: "ref list" and index chosen :: nat
  assume c: "chosen = ourPriorityIndex P h index" and n: "chosen \<noteq> index"
  have "ourPriorityIndex P h index = index
      \<or> (index < ourPriorityIndex P h index \<and> ourPriorityIndex P h index < length h)"
    by (simp add: ourPriorityIndex_def Let_def)
  with c n have "index < chosen \<and> chosen < length h" by simp
  then show "((P, actualElement, h[index := h ! chosen, chosen := actualElement], chosen),
              (P, actualElement, h, index)) \<in> measure (\<lambda>(P, e, h, i). length h - i)"
    by (simp add: diff_less_mono2)
qed

text \<open>
  With a negative index \<open>leftChildIndex\<close> is negative as well, so the bound test passes
  and \<open>heapArr[leftChildIndex].priority\<close> reads a property of \<open>undefined\<close>: a TypeError,
  before anything is written.
\<close>

definition bubbleDown :: "int \<Rightarrow> 'a pq \<Rightarrow> error + 'a pq" where
  "bubbleDown index s =
     (if index < 0 then Inl TypeError
      else Inr (s\<lparr>heapArr :=
                  bubbleDown_loop (prio s) (heapArr s ! nat index) (heapArr s) (nat index)\<rparr>))"

section \<open>The public operations\<close>

definition add :: "'a \<Rightarrow> num_arg \<Rightarrow> 'a pq \<Rightarrow> (error + ref) \<times> 'a pq" where
  "add elem priority_arg s =
     (case isNumber priority_arg of
        Inl e \<Rightarrow> (Inl e, s)
      | Inr p \<Rightarrow>
          let newItem = length (objs s);
              s1 = s\<lparr>heapArr := heapArr s @ [newItem],
                     objs := objs s @ [\<lparr>element = elem, priority = p\<rparr>]\<rparr>
          in (case bubbleUp (int (length (heapArr s1)) - 1) s1 of
                Inl e \<Rightarrow> (Inl e, s1)
              | Inr s2 \<Rightarrow>
                  (Inr newItem,
                   s2\<lparr>prioritiesObj := increasePriority p (prioritiesObj s2),
                      counterDequeuedElements := counterDequeuedElements s2 + 1,
                      references := insert newItem (references s2)\<rparr>)))"

definition front :: "'a pq \<Rightarrow> 'a option" where
  "front s = (if heapArr s \<noteq> [] then Some (element (objs s ! (heapArr s ! 0))) else None)"

text \<open>
  \<open>next\<close>. The statement \<open>this.heapArr[0] = this.heapArr.pop()\<close> pops first and then
  writes index 0; on an array that the pop has emptied, the write makes it one element
  long again.
\<close>

definition next_pq :: "'a pq \<Rightarrow> (error + 'a option) \<times> 'a pq" where
  "next_pq s =
     (if heapArr s = [] then (Inr None, s)
      else
        let root = heapArr s ! 0;
            popped = last (heapArr s);
            rest = butlast (heapArr s);
            s1 = s\<lparr>heapArr := (if rest = [] then [popped] else rest[0 := popped])\<rparr>
        in (case (if heapArr s1 \<noteq> [] then bubbleDown 0 s1 else Inr s1) of
              Inl e \<Rightarrow> (Inl e, s1)
            | Inr s2 \<Rightarrow>
                (Inr (Some (element (objs s2 ! root))),
                 s2\<lparr>prioritiesObj := decreasePriority (prio s2 root) (prioritiesObj s2),
                    references := references s2 - {root},
                    deletedElements := insert root (deletedElements s2)\<rparr>)))"

definition length_pq :: "'a pq \<Rightarrow> nat" where
  "length_pq s = length (heapArr s)"

definition totalProcessed :: "'a pq \<Rightarrow> nat" where
  "totalProcessed s = counterDequeuedElements s"

definition stats :: "'a pq \<Rightarrow> (real \<times> count) list" where
  "stats s = prioritiesObj s"

text \<open>
  A position is any finite number. A position inside the range that is not a whole
  number reads \<open>heapArr[position - 1]\<close> as \<open>undefined\<close>.
\<close>

definition whole :: "real \<Rightarrow> bool" where
  "whole x = (x = real_of_int \<lfloor>x\<rfloor>)"

definition slot :: "real \<Rightarrow> nat" where
  "slot x = nat (\<lfloor>x\<rfloor> - 1)"

definition at_pq :: "num_arg \<Rightarrow> 'a pq \<Rightarrow> error + (ref \<times> 'a) option" where
  "at_pq position s =
     (case isNumber position of
        Inl e \<Rightarrow> Inl e
      | Inr x \<Rightarrow>
          if x \<le> 0 then Inl RangeError
          else if x > real (length (heapArr s)) then Inr None
          else if whole x
               then Inr (Some (heapArr s ! slot x, element (objs s ! (heapArr s ! slot x))))
               else Inl TypeError)"

definition positionOf :: "ref \<Rightarrow> 'a pq \<Rightarrow> error + int" where
  "positionOf elementRef s =
     (case getIndexByReference elementRef s of
        Inl e \<Rightarrow> Inl e
      | Inr i \<Rightarrow> Inr (int i + 1))"

definition changePriority :: "ref \<Rightarrow> num_arg \<Rightarrow> 'a pq \<Rightarrow> (error + int) \<times> 'a pq" where
  "changePriority elementRef newPriority_arg s =
     (case isNumber newPriority_arg of
        Inl e \<Rightarrow> (Inl e, s)
      | Inr newPriority \<Rightarrow>
          if elementRef \<notin> references s then (Inl ReferenceError, s)
          else
            (case getValueByReference elementRef s of
              None \<Rightarrow> (Inl TypeError, s)
            | Some item \<Rightarrow>
                let oldPriority = prio s item;
                    s1 = s\<lparr>prioritiesObj := decreasePriority oldPriority (prioritiesObj s)\<rparr>;
                    s2 = s1\<lparr>objs := (objs s1)[item := (objs s1 ! item)\<lparr>priority := newPriority\<rparr>]\<rparr>;
                    s3 = s2\<lparr>prioritiesObj := increasePriority newPriority (prioritiesObj s2)\<rparr>;
                    index = findIndex (heapArr s3) elementRef;
                    sifted = (if oldPriority > newPriority then bubbleDown index s3
                              else if oldPriority < newPriority then bubbleUp index s3
                              else Inr s3)
                in (case sifted of
                      Inl e \<Rightarrow> (Inl e, s3)
                    | Inr s4 \<Rightarrow>
                        (Inr (if elementRef \<in> references s4
                              then findIndex (heapArr s4) elementRef + 1 else - 1), s4))))"

text \<open>\<open>splice(index, 1)\<close> closes the gap: the entries behind move one slot forward.\<close>

definition splice1 :: "nat \<Rightarrow> 'b list \<Rightarrow> 'b list" where
  "splice1 index h = take index h @ drop (Suc index) h"

definition removeByRef :: "ref \<Rightarrow> 'a pq \<Rightarrow> (error + bool) \<times> 'a pq" where
  "removeByRef elementRef s =
     (if elementRef \<in> deletedElements s then (Inr False, s)
      else
        case getIndexByReference elementRef s of
          Inl e \<Rightarrow> (Inl e, s)
        | Inr index \<Rightarrow>
            let item = heapArr s ! index;
                s1 = s\<lparr>heapArr := splice1 index (heapArr s)\<rparr>
            in (Inr True,
                s1\<lparr>prioritiesObj := decreasePriority (prio s1 item) (prioritiesObj s1),
                   deletedElements := insert item (deletedElements s1)\<rparr>))"

text \<open>
  \<open>removeByPosition\<close>. For a position in range that is not a whole number,
  \<open>itemToRemove\<close> is \<open>undefined\<close>; \<open>removeByRef(undefined)\<close> finds it neither in
  \<open>deletedElements\<close> nor in \<open>heapArr\<close>, and \<open>getIndexByReference\<close> throws.
\<close>

definition removeByPosition :: "num_arg \<Rightarrow> 'a pq \<Rightarrow> (error + bool) \<times> 'a pq" where
  "removeByPosition position s =
     (case isNumber position of
        Inl e \<Rightarrow> (Inl e, s)
      | Inr x \<Rightarrow>
          if x \<le> 0 then (Inl RangeError, s)
          else if x > real (length_pq s) then (Inr False, s)
          else if whole x
               then (case removeByRef (heapArr s ! slot x) s of
                       (Inl e, s') \<Rightarrow> (Inl e, s')
                     | (Inr b, s') \<Rightarrow> (Inr True, s'))
               else (Inl ReferenceError, s))"

definition clear :: "'a pq \<Rightarrow> 'a pq" where
  "clear s = s\<lparr>heapArr := [], references := {}, prioritiesObj := [], deletedElements := {}\<rparr>"

subsection \<open>forEach\<close>





section \<open>Sequences of mutating calls\<close>

datatype 'a op =
  Add 'a num_arg
| Next
| ChangePriority ref num_arg
| RemoveByRef ref
| RemoveByPosition num_arg
| Clear

fun step :: "'a op \<Rightarrow> 'a pq \<Rightarrow> 'a pq" where
  "step (Add e p) s = snd (add e p s)"
| "step Next s = snd (next_pq s)"
| "step (ChangePriority r p) s = snd (changePriority r p s)"
| "step (RemoveByRef r) s = snd (removeByRef r s)"
| "step (RemoveByPosition p) s = snd (removeByPosition p s)"
| "step Clear s = clear s"

fun run :: "'a op list \<Rightarrow> 'a pq \<Rightarrow> 'a pq" where
  "run [] s = s"
| "run (x # xs) s = run xs (step x s)"

section \<open>Notions the properties are stated with\<close>

text \<open>
  The max-heap ordering on the storage array: no entry has a child, at index \<open>2i+1\<close> or
  \<open>2i+2\<close>, of strictly greater priority.
\<close>

definition heap_ordered :: "'a pq \<Rightarrow> bool" where
  "heap_ordered s =
     list_all (\<lambda>i. (if 2 * i + 1 < length (heapArr s)
                      then prio s (heapArr s ! i) \<ge> prio s (heapArr s ! (2 * i + 1)) else True)
                \<and> (if 2 * i + 2 < length (heapArr s)
                      then prio s (heapArr s ! i) \<ge> prio s (heapArr s ! (2 * i + 2)) else True))
              [0 ..< length (heapArr s)]"

text \<open>
  The same ordering read from the child: the entry at index \<open>j\<close> is not above its parent,
  which is at index \<open>(j - 1) div 2\<close>.
\<close>

definition parent_ge :: "(ref \<Rightarrow> real) \<Rightarrow> ref list \<Rightarrow> nat \<Rightarrow> bool" where
  "parent_ge P h j = (P (h ! ((j - 1) div 2)) \<ge> P (h ! j))"

text \<open>
  The sum of the values of the histogram, as JavaScript adds numbers: a NaN makes the
  sum NaN.
\<close>

fun count_add :: "count \<Rightarrow> count \<Rightarrow> count" where
  "count_add (Cnt a) (Cnt b) = Cnt (a + b)"
| "count_add _ _ = NaN"

definition stats_sum :: "(real \<times> count) list \<Rightarrow> count" where
  "stats_sum h = foldr count_add (map snd h) (Cnt 0)"

text \<open>
  A value of the histogram that is a count of at least 1, or NaN; and a histogram all of
  whose values are such.
\<close>

fun positive_or_NaN :: "count \<Rightarrow> bool" where
  "positive_or_NaN (Cnt n) = (1 \<le> n)"
| "positive_or_NaN NaN = True"

definition counts_positive :: "(real \<times> count) list \<Rightarrow> bool" where
  "counts_positive h = list_all (\<lambda>kc. positive_or_NaN (snd kc)) h"

text \<open>
  \<open>removes r x s\<close>: the call \<open>x\<close>, made in state \<open>s\<close>, is one that takes the entry
  \<open>r\<close> out of the queue: \<open>next\<close> when \<open>r\<close> is at the root, \<open>removeByRef\<close> on \<open>r\<close>,
  \<open>removeByPosition\<close> on the position that holds \<open>r\<close>, or \<open>clear\<close>.
  \<open>keeps r xs s\<close>: no call of the sequence \<open>xs\<close>, run from \<open>s\<close>, is such a call.
\<close>

fun removes :: "ref \<Rightarrow> 'a op \<Rightarrow> 'a pq \<Rightarrow> bool" where
  "removes r Next s = (heapArr s \<noteq> [] \<and> heapArr s ! 0 = r)"
| "removes r (RemoveByRef x) s = (x = r)"
| "removes r (RemoveByPosition (Num x)) s =
     (0 < x \<and> x \<le> real (length (heapArr s)) \<and> whole x \<and> heapArr s ! slot x = r)"
| "removes r (RemoveByPosition NotFiniteNumber) s = False"
| "removes r Clear s = True"
| "removes r (Add e p) s = False"
| "removes r (ChangePriority x p) s = False"

fun keeps :: "ref \<Rightarrow> 'a op list \<Rightarrow> 'a pq \<Rightarrow> bool" where
  "keeps r [] s = True"
| "keeps r (x # xs) s = (\<not> removes r x s \<and> keeps r xs (step x s))"



text \<open>The two calls that take an entry out with \<open>splice\<close>.\<close>

fun splices :: "'a op \<Rightarrow> bool" where
  "splices (RemoveByRef r) = True"
| "splices (RemoveByPosition p) = True"
| "splices (Add e p) = False"
| "splices Next = False"
| "splices (ChangePriority r p) = False"
| "splices Clear = False"

section \<open>Facts about the helpers\<close>

declare bubbleUp_loop.simps [simp del]
declare bubbleDown_loop.simps [simp del]

lemma ourPriorityIndex_cases:
  "ourPriorityIndex P h i = i \<or> (i < ourPriorityIndex P h i \<and> ourPriorityIndex P h i < length h)"
  by (simp add: ourPriorityIndex_def Let_def)

lemma index_of_None: "index_of xs r = None \<longleftrightarrow> r \<notin> set xs"
  by (induction xs) auto

lemma index_of_Some: "index_of xs r = Some i \<Longrightarrow> i < length xs \<and> xs ! i = r"
  by (induction xs arbitrary: i) (auto split: if_splits)

lemma index_of_mem: "r \<in> set xs \<Longrightarrow> \<exists>i. index_of xs r = Some i"
  using index_of_None [of xs r] by (cases "index_of xs r") auto

lemma mset_bubbleUp_loop:
  "i < length h \<Longrightarrow> h ! i = e \<Longrightarrow> mset (bubbleUp_loop P e h i) = mset h"
proof (induction P e h i rule: bubbleUp_loop.induct)
  case (1 P e h i)
  show ?case
  proof (cases "i = 0 \<or> P (h ! ((i - 1) div 2)) \<ge> P e")
    case True
    then show ?thesis by (auto simp: bubbleUp_loop.simps [of P e h i] Let_def)
  next
    case False
    let ?p = "(i - 1) div 2"
    let ?h = "h[?p := e, i := h ! ?p]"
    from False have i0: "i \<noteq> 0" and lt: "\<not> P (h ! ?p) \<ge> P e" by auto
    from i0 have pi: "?p < i" by arith
    with "1.prems" have pl: "?p < length h" by simp
    have sw: "mset ?h = mset h"
      using mset_swap [of i h ?p] pl "1.prems" by simp
    have "mset (bubbleUp_loop P e ?h ?p) = mset ?h"
      using "1.IH" [OF i0 refl refl] lt pl pi by simp
    with sw have "mset (bubbleUp_loop P e ?h ?p) = mset h" by simp
    moreover have "bubbleUp_loop P e h i = bubbleUp_loop P e ?h ?p"
      using i0 lt by (simp add: bubbleUp_loop.simps [of P e h i] Let_def)
    ultimately show ?thesis by simp
  qed
qed

lemma mset_bubbleDown_loop:
  "h ! i = e \<Longrightarrow> mset (bubbleDown_loop P e h i) = mset h"
proof (induction P e h i rule: bubbleDown_loop.induct)
  case (1 P e h i)
  let ?c = "ourPriorityIndex P h i"
  show ?case
  proof (cases "?c = i")
    case True
    then show ?thesis by (simp add: bubbleDown_loop.simps [of P e h i])
  next
    case False
    let ?h = "h[i := h ! ?c, ?c := e]"
    from False ourPriorityIndex_cases [of P h i]
    have ic: "i < ?c" and cl: "?c < length h" by auto
    have sw: "mset ?h = mset h"
      using mset_swap [of ?c h i] ic cl "1.prems" by simp
    have "mset (bubbleDown_loop P e ?h ?c) = mset ?h"
      using "1.IH" [OF refl False] cl by simp
    with sw have "mset (bubbleDown_loop P e ?h ?c) = mset h" by simp
    moreover have "bubbleDown_loop P e h i = bubbleDown_loop P e ?h ?c"
      using False by (simp add: bubbleDown_loop.simps [of P e h i] Let_def)
    ultimately show ?thesis by simp
  qed
qed

lemma bubbleUp_effect:
  assumes "0 \<le> k" and "nat k < length (heapArr s)"
  shows "\<exists>h'. bubbleUp k s = Inr (s\<lparr>heapArr := h'\<rparr>) \<and> mset h' = mset (heapArr s)"
  using assms mset_bubbleUp_loop [of "nat k" "heapArr s" "heapArr s ! nat k" "prio s"]
  by (intro exI [of _ "bubbleUp_loop (prio s) (heapArr s ! nat k) (heapArr s) (nat k)"])
     (simp add: bubbleUp_def)

lemma bubbleDown_effect:
  assumes "0 \<le> k"
  shows "\<exists>h'. bubbleDown k s = Inr (s\<lparr>heapArr := h'\<rparr>) \<and> mset h' = mset (heapArr s)"
  using assms mset_bubbleDown_loop [of "heapArr s" "nat k" "heapArr s ! nat k" "prio s"]
  by (intro exI [of _ "bubbleDown_loop (prio s) (heapArr s ! nat k) (heapArr s) (nat k)"])
     (simp add: bubbleDown_def)

lemma add_NotFinite: "add e NotFiniteNumber s = (Inl TypeError, s)"
  by (simp add: add_def isNumber_def)

lemma add_effect:
  "\<exists>h'. add e (Num p) s =
     (Inr (length (objs s)),
      s\<lparr>heapArr := h',
        objs := objs s @ [\<lparr>element = e, priority = p\<rparr>],
        prioritiesObj := increasePriority p (prioritiesObj s),
        counterDequeuedElements := counterDequeuedElements s + 1,
        references := insert (length (objs s)) (references s)\<rparr>)
     \<and> mset h' = add_mset (length (objs s)) (mset (heapArr s))"
proof -
  let ?s1 = "s\<lparr>heapArr := heapArr s @ [length (objs s)],
               objs := objs s @ [\<lparr>element = e, priority = p\<rparr>]\<rparr>"
  obtain h' where b: "bubbleUp (int (length (heapArr ?s1)) - 1) ?s1 = Inr (?s1\<lparr>heapArr := h'\<rparr>)"
    and m: "mset h' = mset (heapArr ?s1)"
    using bubbleUp_effect [of "int (length (heapArr ?s1)) - 1" ?s1] by auto
  have "add e (Num p) s =
     (Inr (length (objs s)),
      s\<lparr>heapArr := h',
        objs := objs s @ [\<lparr>element = e, priority = p\<rparr>],
        prioritiesObj := increasePriority p (prioritiesObj s),
        counterDequeuedElements := counterDequeuedElements s + 1,
        references := insert (length (objs s)) (references s)\<rparr>)"
    using b by (simp add: add_def isNumber_def Let_def)
  moreover have "mset h' = add_mset (length (objs s)) (mset (heapArr s))"
    using m by simp
  ultimately show ?thesis by blast
qed

lemma next_empty: "heapArr s = [] \<Longrightarrow> next_pq s = (Inr None, s)"
  by (simp add: next_pq_def)

lemma mset_pop_to_root:
  assumes "length h \<ge> 2"
  shows "mset ((butlast h)[0 := last h]) = mset h - {#h ! 0#}"
proof -
  from assms obtain x y zs where h: "h = x # y # zs"
    by (cases h; cases "tl h") auto
  have "mset (butlast (y # zs)) + {#last (y # zs)#} = mset (y # zs)"
    using append_butlast_last_id [of "y # zs"]
    by (metis list.distinct(1) mset.simps(1) mset.simps(2) mset_append union_mset_add_mset_right add.right_neutral)
  then show ?thesis using h by (simp del: butlast.simps last.simps add: butlast.simps(2) [of x] last.simps [of x])
qed

subsection \<open>What each operation does to the state\<close>

lemma next_effect:
  assumes "heapArr s \<noteq> []"
  shows "\<exists>h'. next_pq s =
     (Inr (Some (element (objs s ! (heapArr s ! 0)))),
      s\<lparr>heapArr := h',
        prioritiesObj := decreasePriority (prio s (heapArr s ! 0)) (prioritiesObj s),
        references := references s - {heapArr s ! 0},
        deletedElements := insert (heapArr s ! 0) (deletedElements s)\<rparr>)
     \<and> (if length (heapArr s) = 1 then h' = heapArr s
         else mset h' = mset (heapArr s) - {#heapArr s ! 0#})"
proof -
  let ?h1 = "(if butlast (heapArr s) = [] then [last (heapArr s)]
             else (butlast (heapArr s))[0 := last (heapArr s)])"
  let ?s1 = "s\<lparr>heapArr := ?h1\<rparr>"
  have ne: "heapArr ?s1 \<noteq> []" by simp
  obtain h' where b: "bubbleDown 0 ?s1 = Inr (?s1\<lparr>heapArr := h'\<rparr>)"
    and m: "mset h' = mset (heapArr ?s1)"
    using bubbleDown_effect [of 0 ?s1] by auto
  have eq: "next_pq s =
     (Inr (Some (element (objs s ! (heapArr s ! 0)))),
      s\<lparr>heapArr := h',
        prioritiesObj := decreasePriority (prio s (heapArr s ! 0)) (prioritiesObj s),
        references := references s - {heapArr s ! 0},
        deletedElements := insert (heapArr s ! 0) (deletedElements s)\<rparr>)"
    using assms b ne by (simp add: next_pq_def Let_def prio_def)
  have "(if length (heapArr s) = 1 then h' = heapArr s
         else mset h' = mset (heapArr s) - {#heapArr s ! 0#})"
  proof (cases "length (heapArr s) = 1")
    case True
    then obtain x where x: "heapArr s = [x]" by (cases "heapArr s") auto
    with m have "mset h' = {#x#}" by simp
    then have "h' = [x]" by (metis mset_single_iff)
    with x True show ?thesis by simp
  next
    case False
    from assms have "0 < length (heapArr s)" by simp
    with False have l2: "length (heapArr s) \<ge> 2" by arith
    then have "butlast (heapArr s) \<noteq> []" by (cases "heapArr s"; cases "tl (heapArr s)") auto
    with m mset_pop_to_root [OF l2] False show ?thesis by simp
  qed
  with eq show ?thesis by blast
qed

lemma changePriority_NotFinite: "changePriority r NotFiniteNumber s = (Inl TypeError, s)"
  by (simp add: changePriority_def isNumber_def)

lemma changePriority_invalid:
  "r \<notin> references s \<Longrightarrow> changePriority r (Num p) s = (Inl ReferenceError, s)"
  by (simp add: changePriority_def isNumber_def)

lemma findIndex_range: "r \<in> set h \<Longrightarrow> 0 \<le> findIndex h r \<and> nat (findIndex h r) < length h \<and> h ! nat (findIndex h r) = r"
  using index_of_mem [of r h] index_of_Some [of h r] by (auto simp: findIndex_def)

lemma findIndex_absent: "r \<notin> set h \<Longrightarrow> findIndex h r = - 1"
  using index_of_None [of h r] by (simp add: findIndex_def)

lemma changePriority_effect:
  assumes "r \<in> references s"
  shows "\<exists>res h'. changePriority r (Num p) s =
     (res,
      s\<lparr>objs := (objs s)[r := (objs s ! r)\<lparr>priority := p\<rparr>],
        prioritiesObj := increasePriority p (decreasePriority (prio s r) (prioritiesObj s)),
        heapArr := h'\<rparr>)
     \<and> mset h' = mset (heapArr s)
     \<and> (r \<in> set (heapArr s) \<longrightarrow> res = Inr (findIndex h' r + 1))"
proof -
  let ?s3 = "s\<lparr>objs := (objs s)[r := (objs s ! r)\<lparr>priority := p\<rparr>],
               prioritiesObj := increasePriority p (decreasePriority (prio s r) (prioritiesObj s))\<rparr>"
  let ?k = "findIndex (heapArr s) r"
  let ?sifted = "(if prio s r > p then bubbleDown ?k ?s3
                  else if prio s r < p then bubbleUp ?k ?s3 else Inr ?s3)"
  have cp: "changePriority r (Num p) s =
      (case ?sifted of Inl e \<Rightarrow> (Inl e, ?s3)
       | Inr s4 \<Rightarrow> (Inr (if r \<in> references s4 then findIndex (heapArr s4) r + 1 else - 1), s4))"
    using assms
    by (simp add: changePriority_def isNumber_def getValueByReference_def Let_def
             cong: sum.case_cong)
  show ?thesis
  proof (cases "r \<in> set (heapArr s)")
    case True
    from findIndex_range [OF True] have k0: "0 \<le> ?k" and kl: "nat ?k < length (heapArr ?s3)"
      by simp_all
    have "\<exists>h'. ?sifted = Inr (?s3\<lparr>heapArr := h'\<rparr>) \<and> mset h' = mset (heapArr s)"
    proof (cases "prio s r > p")
      case True
      then show ?thesis using bubbleDown_effect [OF k0, of ?s3] by simp
    next
      case False
      show ?thesis
      proof (cases "prio s r < p")
        case True
        then show ?thesis using False bubbleUp_effect [OF k0 kl] by simp
      next
        case False
        with \<open>\<not> prio s r > p\<close> show ?thesis
          by (intro exI [of _ "heapArr s"]) simp
      qed
    qed
    then obtain h' where sf: "?sifted = Inr (?s3\<lparr>heapArr := h'\<rparr>)" and m: "mset h' = mset (heapArr s)"
      by blast
    have "changePriority r (Num p) s = (Inr (findIndex h' r + 1), ?s3\<lparr>heapArr := h'\<rparr>)"
      using assms by (simp only: cp sf) simp
    with m show ?thesis by auto
  next
    case False
    then have km: "?k = - 1" by (rule findIndex_absent)
    have "?sifted = Inl TypeError \<or> ?sifted = Inr ?s3"
      by (simp add: km bubbleDown_def bubbleUp_def)
    then have "\<exists>res. changePriority r (Num p) s = (res, ?s3)"
      by (auto simp only: cp) auto
    then obtain res where "changePriority r (Num p) s = (res, ?s3\<lparr>heapArr := heapArr s\<rparr>)"
      by auto
    with False show ?thesis
      by (intro exI [of _ res] exI [of _ "heapArr s"]) simp
  qed
qed

lemma removeByRef_deleted:
  "r \<in> deletedElements s \<Longrightarrow> removeByRef r s = (Inr False, s)"
  by (simp add: removeByRef_def)

lemma removeByRef_invalid:
  "r \<notin> deletedElements s \<Longrightarrow> r \<notin> set (heapArr s) \<Longrightarrow> removeByRef r s = (Inl ReferenceError, s)"
  using index_of_None [of "heapArr s" r] by (simp add: removeByRef_def getIndexByReference_def)

lemma removeByRef_effect:
  assumes "r \<notin> deletedElements s" and "r \<in> set (heapArr s)"
  shows "\<exists>i. index_of (heapArr s) r = Some i \<and> i < length (heapArr s) \<and> heapArr s ! i = r \<and>
     removeByRef r s =
     (Inr True,
      s\<lparr>heapArr := splice1 i (heapArr s),
        prioritiesObj := decreasePriority (prio s r) (prioritiesObj s),
        deletedElements := insert r (deletedElements s)\<rparr>)"
proof -
  from index_of_mem [OF assms(2)] obtain i where i: "index_of (heapArr s) r = Some i" by blast
  from index_of_Some [OF i] have il: "i < length (heapArr s)" and ir: "heapArr s ! i = r" by simp_all
  have "removeByRef r s =
     (Inr True,
      s\<lparr>heapArr := splice1 i (heapArr s),
        prioritiesObj := decreasePriority (prio s r) (prioritiesObj s),
        deletedElements := insert r (deletedElements s)\<rparr>)"
    using assms(1) i ir by (simp add: removeByRef_def getIndexByReference_def Let_def prio_def)
  with i il ir show ?thesis by blast
qed

lemma set_splice1_subset: "set (splice1 i h) \<subseteq> set h"
  unfolding splice1_def using set_take_subset [of i h] set_drop_subset [of "Suc i" h] by auto

lemma mset_splice1: "i < length h \<Longrightarrow> mset (splice1 i h) = mset h - {#h ! i#}"
proof -
  assume il: "i < length h"
  then have "h = take i h @ h ! i # drop (Suc i) h" by (rule id_take_nth_drop)
  then have "mset h = mset (take i h) + {#h ! i#} + mset (drop (Suc i) h)"
    by (metis mset.simps(2) mset_append union_mset_add_mset_right add_mset_add_single union_assoc union_commute)
  then show ?thesis by (simp add: splice1_def)
qed

lemma length_splice1: "i < length h \<Longrightarrow> length (splice1 i h) = length h - 1"
  by (auto simp: splice1_def)

subsection \<open>The fields after one call\<close>

lemma step_Add_fields:
  "set (heapArr (step (Add e (Num p)) s)) = insert (length (objs s)) (set (heapArr s))
   \<and> length (heapArr (step (Add e (Num p)) s)) = length (heapArr s) + 1
   \<and> references (step (Add e (Num p)) s) = insert (length (objs s)) (references s)
   \<and> deletedElements (step (Add e (Num p)) s) = deletedElements s
   \<and> objs (step (Add e (Num p)) s) = objs s @ [\<lparr>element = e, priority = p\<rparr>]
   \<and> counterDequeuedElements (step (Add e (Num p)) s) = counterDequeuedElements s + 1"
proof -
  from add_effect [of e p s] obtain h' where
    a: "add e (Num p) s =
     (Inr (length (objs s)),
      s\<lparr>heapArr := h',
        objs := objs s @ [\<lparr>element = e, priority = p\<rparr>],
        prioritiesObj := increasePriority p (prioritiesObj s),
        counterDequeuedElements := counterDequeuedElements s + 1,
        references := insert (length (objs s)) (references s)\<rparr>)"
    and m: "mset h' = add_mset (length (objs s)) (mset (heapArr s))" by blast
  from m have "set_mset (mset h') = set_mset (add_mset (length (objs s)) (mset (heapArr s)))"
    by simp
  then have st: "set h' = insert (length (objs s)) (set (heapArr s))" by simp
  from m have "size (mset h') = size (add_mset (length (objs s)) (mset (heapArr s)))"
    by simp
  then have ln: "length h' = length (heapArr s) + 1" by simp
  show ?thesis using st ln by (simp add: a)
qed

lemma step_Add_NotFinite: "step (Add e NotFiniteNumber) s = s"
  by (simp add: add_NotFinite)

lemma step_Next_empty: "heapArr s = [] \<Longrightarrow> step Next s = s"
  by (simp add: next_empty)

lemma step_Next_fields:
  assumes "heapArr s \<noteq> []"
  shows "set (heapArr (step Next s)) \<subseteq> set (heapArr s)
   \<and> set (heapArr s) - {heapArr s ! 0} \<subseteq> set (heapArr (step Next s))
   \<and> references (step Next s) = references s - {heapArr s ! 0}
   \<and> deletedElements (step Next s) = insert (heapArr s ! 0) (deletedElements s)
   \<and> objs (step Next s) = objs s
   \<and> counterDequeuedElements (step Next s) = counterDequeuedElements s"
proof -
  from next_effect [OF assms] obtain h' where
    a: "next_pq s =
     (Inr (Some (element (objs s ! (heapArr s ! 0)))),
      s\<lparr>heapArr := h',
        prioritiesObj := decreasePriority (prio s (heapArr s ! 0)) (prioritiesObj s),
        references := references s - {heapArr s ! 0},
        deletedElements := insert (heapArr s ! 0) (deletedElements s)\<rparr>)"
    and m: "(if length (heapArr s) = 1 then h' = heapArr s
             else mset h' = mset (heapArr s) - {#heapArr s ! 0#})" by blast
  have sub: "set h' \<subseteq> set (heapArr s)"
  proof (cases "length (heapArr s) = 1")
    case True with m show ?thesis by simp
  next
    case False
    with m have e: "mset h' = mset (heapArr s) - {#heapArr s ! 0#}" by simp
    show ?thesis
    proof
      fix x assume "x \<in> set h'"
      then have "x \<in># mset h'" by simp
      with e have "x \<in># mset (heapArr s) - {#heapArr s ! 0#}" by simp
      then have "x \<in># mset (heapArr s)" by (rule in_diffD)
      then show "x \<in> set (heapArr s)" by simp
    qed
  qed
  have sup: "set (heapArr s) - {heapArr s ! 0} \<subseteq> set h'"
  proof (cases "length (heapArr s) = 1")
    case True with m show ?thesis by auto
  next
    case False
    with m have e: "mset h' = mset (heapArr s) - {#heapArr s ! 0#}" by simp
    show ?thesis
    proof
      fix x assume "x \<in> set (heapArr s) - {heapArr s ! 0}"
      then have "x \<in># mset (heapArr s)" and "x \<noteq> heapArr s ! 0" by simp_all
      then have "x \<in># mset (heapArr s) - {#heapArr s ! 0#}"
        by (simp add: in_diff_count)
      with e have "x \<in># mset h'" by simp
      then show "x \<in> set h'" by simp
    qed
  qed
  show ?thesis using sub sup by (simp add: a)
qed

lemma step_ChangePriority_fields:
  "set (heapArr (step (ChangePriority r p) s)) = set (heapArr s)
   \<and> length (heapArr (step (ChangePriority r p) s)) = length (heapArr s)
   \<and> references (step (ChangePriority r p) s) = references s
   \<and> deletedElements (step (ChangePriority r p) s) = deletedElements s
   \<and> length (objs (step (ChangePriority r p) s)) = length (objs s)
   \<and> map element (objs (step (ChangePriority r p) s)) = map element (objs s)
   \<and> counterDequeuedElements (step (ChangePriority r p) s) = counterDequeuedElements s"
proof (cases p)
  case NotFiniteNumber
  then show ?thesis by (simp add: changePriority_NotFinite)
next
  case (Num x)
  show ?thesis
  proof (cases "r \<in> references s")
    case False
    then show ?thesis using Num by (simp add: changePriority_invalid)
  next
    case True
    from changePriority_effect [OF True, of x] obtain res h' where
      a: "changePriority r (Num x) s =
       (res,
        s\<lparr>objs := (objs s)[r := (objs s ! r)\<lparr>priority := x\<rparr>],
          prioritiesObj := increasePriority x (decreasePriority (prio s r) (prioritiesObj s)),
          heapArr := h'\<rparr>)"
      and m: "mset h' = mset (heapArr s)" by blast
    from m have st: "set h' = set (heapArr s)" by (rule mset_eq_setD)
    from m have ln: "length h' = length (heapArr s)" by (rule mset_eq_length)
    have el: "map element ((objs s)[r := (objs s ! r)\<lparr>priority := x\<rparr>]) = map element (objs s)"
    proof (rule nth_equalityI)
      show "length (map element ((objs s)[r := (objs s ! r)\<lparr>priority := x\<rparr>]))
            = length (map element (objs s))" by simp
    next
      fix i assume "i < length (map element ((objs s)[r := (objs s ! r)\<lparr>priority := x\<rparr>]))"
      then have "i < length (objs s)" by simp
      then show "map element ((objs s)[r := (objs s ! r)\<lparr>priority := x\<rparr>]) ! i
                 = map element (objs s) ! i"
        by (cases "r = i") simp_all
    qed
    show ?thesis using st ln el Num by (simp add: a)
  qed
qed

lemma step_RemoveByRef_cases:
  "step (RemoveByRef r) s = s
   \<or> (r \<notin> deletedElements s \<and> r \<in> set (heapArr s)
      \<and> (\<exists>i < length (heapArr s). heapArr s ! i = r
            \<and> heapArr (step (RemoveByRef r) s) = splice1 i (heapArr s))
      \<and> references (step (RemoveByRef r) s) = references s
      \<and> deletedElements (step (RemoveByRef r) s) = insert r (deletedElements s)
      \<and> objs (step (RemoveByRef r) s) = objs s
      \<and> counterDequeuedElements (step (RemoveByRef r) s) = counterDequeuedElements s)"
proof (cases "r \<in> deletedElements s")
  case True
  then show ?thesis by (simp add: removeByRef_deleted)
next
  case nd: False
  show ?thesis
  proof (cases "r \<in> set (heapArr s)")
    case False
    with nd show ?thesis by (simp add: removeByRef_invalid)
  next
    case True
    from removeByRef_effect [OF nd True] obtain i where
      il: "i < length (heapArr s)" and ir: "heapArr s ! i = r" and
      a: "removeByRef r s =
       (Inr True,
        s\<lparr>heapArr := splice1 i (heapArr s),
          prioritiesObj := decreasePriority (prio s r) (prioritiesObj s),
          deletedElements := insert r (deletedElements s)\<rparr>)" by blast
    have "\<exists>i < length (heapArr s). heapArr s ! i = r
            \<and> heapArr (step (RemoveByRef r) s) = splice1 i (heapArr s)"
      using il ir by (intro exI [of _ i]) (simp add: a)
    then show ?thesis using nd True by (simp add: a)
  qed
qed

lemma step_RemoveByPosition_cases:
  "step (RemoveByPosition p) s = s
   \<or> (\<exists>x. p = Num x \<and> 0 < x \<and> x \<le> real (length (heapArr s)) \<and> whole x
          \<and> step (RemoveByPosition p) s = step (RemoveByRef (heapArr s ! slot x)) s)"
proof (cases p)
  case NotFiniteNumber
  then show ?thesis by (simp add: removeByPosition_def isNumber_def)
next
  case (Num x)
  then show ?thesis
    by (cases "removeByRef (heapArr s ! slot x) s")
       (auto simp: removeByPosition_def isNumber_def length_pq_def split: sum.splits)
qed

lemma step_Clear_fields:
  "heapArr (step Clear s) = [] \<and> references (step Clear s) = {}
   \<and> deletedElements (step Clear s) = {} \<and> objs (step Clear s) = objs s
   \<and> counterDequeuedElements (step Clear s) = counterDequeuedElements s"
  by (simp add: clear_def)

subsection \<open>Invariants of one call and of a sequence of calls\<close>

declare step.simps [simp del]

lemma counter_step: "counterDequeuedElements s \<le> counterDequeuedElements (step x s)"
proof (cases x)
  case (Add e p)
  then show ?thesis using step_Add_fields [of e _ s] step_Add_NotFinite [of e s]
    by (cases p) simp_all
next
  case Next
  then show ?thesis using step_Next_fields [of s] step_Next_empty [of s]
    by (cases "heapArr s = []") simp_all
next
  case (ChangePriority r p)
  then show ?thesis using step_ChangePriority_fields [of r p s] by simp
next
  case (RemoveByRef r)
  then show ?thesis using step_RemoveByRef_cases [of r s] by auto
next
  case (RemoveByPosition p)
  from step_RemoveByPosition_cases [of p s] show ?thesis
  proof
    assume "step (RemoveByPosition p) s = s"
    with RemoveByPosition show ?thesis by simp
  next
    assume "\<exists>x. p = Num x \<and> 0 < x \<and> x \<le> real (length (heapArr s)) \<and> whole x
          \<and> step (RemoveByPosition p) s = step (RemoveByRef (heapArr s ! slot x)) s"
    then obtain y where "step (RemoveByPosition p) s = step (RemoveByRef (heapArr s ! slot y)) s"
      by blast
    with RemoveByPosition show ?thesis
      using step_RemoveByRef_cases [of "heapArr s ! slot y" s] by auto
  qed
next
  case Clear
  then show ?thesis by (simp add: step_Clear_fields)
qed

lemma counter_run: "counterDequeuedElements s \<le> counterDequeuedElements (run xs s)"
proof (induction xs arbitrary: s)
  case Nil
  show ?case by simp
next
  case (Cons x xs)
  have "counterDequeuedElements s \<le> counterDequeuedElements (step x s)" by (rule counter_step)
  also have "\<dots> \<le> counterDequeuedElements (run xs (step x s))" by (rule Cons.IH)
  finally show ?case by simp
qed

lemma in_splice1_other:
  assumes "r \<in> set h" and "i < length h" and "h ! i \<noteq> r"
  shows "r \<in> set (splice1 i h)"
proof -
  from assms(1) have "r \<in># mset h" by simp
  with assms(3) have "r \<in># mset h - {#h ! i#}" by (simp add: in_diff_count)
  with mset_splice1 [OF assms(2)] have "r \<in># mset (splice1 i h)" by simp
  then show ?thesis by simp
qed

text \<open>A reference in none of the three collections stays in none of them.\<close>

lemma unknown_step:
  assumes "r < length (objs s)" and "r \<notin> set (heapArr s)" and "r \<notin> references s"
    and "r \<notin> deletedElements s"
  shows "r < length (objs (step x s)) \<and> r \<notin> set (heapArr (step x s))
         \<and> r \<notin> references (step x s) \<and> r \<notin> deletedElements (step x s)"
proof (cases x)
  case (Add e p)
  then show ?thesis using assms step_Add_fields [of e _ s] step_Add_NotFinite [of e s]
    by (cases p) auto
next
  case Next
  show ?thesis
  proof (cases "heapArr s = []")
    case True
    with Next assms show ?thesis by (simp add: step_Next_empty)
  next
    case False
    then have "heapArr s ! 0 \<in> set (heapArr s)" by simp
    with assms have "heapArr s ! 0 \<noteq> r" by auto
    with Next assms step_Next_fields [OF False] show ?thesis by auto
  qed
next
  case (ChangePriority y p)
  then show ?thesis using assms step_ChangePriority_fields [of y p s] by simp
next
  case (RemoveByRef y)
  from step_RemoveByRef_cases [of y s] show ?thesis
  proof
    assume "step (RemoveByRef y) s = s"
    with RemoveByRef assms show ?thesis by simp
  next
    assume a: "y \<notin> deletedElements s \<and> y \<in> set (heapArr s)
      \<and> (\<exists>i < length (heapArr s). heapArr s ! i = y
            \<and> heapArr (step (RemoveByRef y) s) = splice1 i (heapArr s))
      \<and> references (step (RemoveByRef y) s) = references s
      \<and> deletedElements (step (RemoveByRef y) s) = insert y (deletedElements s)
      \<and> objs (step (RemoveByRef y) s) = objs s
      \<and> counterDequeuedElements (step (RemoveByRef y) s) = counterDequeuedElements s"
    then have "y \<noteq> r" using assms by auto
    moreover have "r \<notin> set (heapArr (step (RemoveByRef y) s))"
      using a assms set_splice1_subset by fastforce
    ultimately show ?thesis using a assms RemoveByRef by simp
  qed
next
  case (RemoveByPosition p)
  from step_RemoveByPosition_cases [of p s] show ?thesis
  proof
    assume "step (RemoveByPosition p) s = s"
    with RemoveByPosition assms show ?thesis by simp
  next
    assume "\<exists>x. p = Num x \<and> 0 < x \<and> x \<le> real (length (heapArr s)) \<and> whole x
          \<and> step (RemoveByPosition p) s = step (RemoveByRef (heapArr s ! slot x)) s"
    then obtain x where e: "step (RemoveByPosition p) s = step (RemoveByRef (heapArr s ! slot x)) s"
      by blast
    let ?y = "heapArr s ! slot x"
    from step_RemoveByRef_cases [of ?y s] show ?thesis
    proof
      assume "step (RemoveByRef ?y) s = s"
      with RemoveByPosition e assms show ?thesis by simp
    next
      assume a: "?y \<notin> deletedElements s \<and> ?y \<in> set (heapArr s)
        \<and> (\<exists>i < length (heapArr s). heapArr s ! i = ?y
              \<and> heapArr (step (RemoveByRef ?y) s) = splice1 i (heapArr s))
        \<and> references (step (RemoveByRef ?y) s) = references s
        \<and> deletedElements (step (RemoveByRef ?y) s) = insert ?y (deletedElements s)
        \<and> objs (step (RemoveByRef ?y) s) = objs s
        \<and> counterDequeuedElements (step (RemoveByRef ?y) s) = counterDequeuedElements s"
      then have "?y \<noteq> r" using assms by auto
      moreover have "r \<notin> set (heapArr (step (RemoveByRef ?y) s))"
        using a assms set_splice1_subset by fastforce
      ultimately show ?thesis using a assms RemoveByPosition e by simp
    qed
  qed
next
  case Clear
  then show ?thesis using assms by (simp add: step_Clear_fields)
qed

lemma unknown_run:
  assumes "r < length (objs s)" and "r \<notin> set (heapArr s)" and "r \<notin> references s"
    and "r \<notin> deletedElements s"
  shows "r \<notin> set (heapArr (run xs s)) \<and> r \<notin> references (run xs s)
         \<and> r \<notin> deletedElements (run xs s)"
  using assms
proof (induction xs arbitrary: s)
  case Nil
  then show ?case by simp
next
  case (Cons x xs)
  from unknown_step [OF Cons.prems, of x] Cons.IH [of "step x s"] show ?case by simp
qed

text \<open>A queued entry stays queued across a call that does not take it out.\<close>

lemma kept_step:
  assumes "r \<in> set (heapArr s)" and "\<not> removes r x s"
  shows "r \<in> set (heapArr (step x s))"
proof (cases x)
  case (Add e p)
  then show ?thesis using assms step_Add_fields [of e _ s] step_Add_NotFinite [of e s]
    by (cases p) auto
next
  case Next
  from assms(1) have ne: "heapArr s \<noteq> []" by auto
  with assms Next have "r \<in> set (heapArr s) - {heapArr s ! 0}" by simp
  with step_Next_fields [OF ne] Next show ?thesis by auto
next
  case (ChangePriority y p)
  then show ?thesis using assms step_ChangePriority_fields [of y p s] by simp
next
  case (RemoveByRef y)
  with assms have yr: "y \<noteq> r" by simp
  from step_RemoveByRef_cases [of y s] show ?thesis
  proof
    assume "step (RemoveByRef y) s = s"
    with RemoveByRef assms show ?thesis by simp
  next
    assume "y \<notin> deletedElements s \<and> y \<in> set (heapArr s)
      \<and> (\<exists>i < length (heapArr s). heapArr s ! i = y
            \<and> heapArr (step (RemoveByRef y) s) = splice1 i (heapArr s))
      \<and> references (step (RemoveByRef y) s) = references s
      \<and> deletedElements (step (RemoveByRef y) s) = insert y (deletedElements s)
      \<and> objs (step (RemoveByRef y) s) = objs s
      \<and> counterDequeuedElements (step (RemoveByRef y) s) = counterDequeuedElements s"
    then obtain i where "i < length (heapArr s)" and "heapArr s ! i = y"
      and "heapArr (step (RemoveByRef y) s) = splice1 i (heapArr s)" by blast
    with yr assms(1) RemoveByRef show ?thesis by (simp add: in_splice1_other)
  qed
next
  case (RemoveByPosition p)
  from step_RemoveByPosition_cases [of p s] show ?thesis
  proof
    assume "step (RemoveByPosition p) s = s"
    with RemoveByPosition assms show ?thesis by simp
  next
    assume "\<exists>x. p = Num x \<and> 0 < x \<and> x \<le> real (length (heapArr s)) \<and> whole x
          \<and> step (RemoveByPosition p) s = step (RemoveByRef (heapArr s ! slot x)) s"
    then obtain v where p: "p = Num v" and v: "0 < v" "v \<le> real (length (heapArr s))" "whole v"
      and e: "step (RemoveByPosition p) s = step (RemoveByRef (heapArr s ! slot v)) s"
      by blast
    let ?y = "heapArr s ! slot v"
    from assms(2) RemoveByPosition p v have yr: "?y \<noteq> r" by simp
    from step_RemoveByRef_cases [of ?y s] show ?thesis
    proof
      assume "step (RemoveByRef ?y) s = s"
      with RemoveByPosition e assms show ?thesis by simp
    next
      assume "?y \<notin> deletedElements s \<and> ?y \<in> set (heapArr s)
        \<and> (\<exists>i < length (heapArr s). heapArr s ! i = ?y
              \<and> heapArr (step (RemoveByRef ?y) s) = splice1 i (heapArr s))
        \<and> references (step (RemoveByRef ?y) s) = references s
        \<and> deletedElements (step (RemoveByRef ?y) s) = insert ?y (deletedElements s)
        \<and> objs (step (RemoveByRef ?y) s) = objs s
        \<and> counterDequeuedElements (step (RemoveByRef ?y) s) = counterDequeuedElements s"
      then obtain i where "i < length (heapArr s)" and "heapArr s ! i = ?y"
        and "heapArr (step (RemoveByRef ?y) s) = splice1 i (heapArr s)" by blast
      with yr assms(1) RemoveByPosition e show ?thesis by (simp add: in_splice1_other)
    qed
  qed
next
  case Clear
  with assms show ?thesis by simp
qed

lemma kept_run: "r \<in> set (heapArr s) \<Longrightarrow> keeps r xs s \<Longrightarrow> r \<in> set (heapArr (run xs s))"
proof (induction xs arbitrary: s)
  case Nil
  then show ?case by simp
next
  case (Cons x xs)
  from Cons.prems have "r \<in> set (heapArr (step x s))" and "keeps r xs (step x s)"
    by (simp_all add: kept_step)
  then show ?case using Cons.IH by simp
qed

text \<open>The object store only grows, and the element of an object never changes.\<close>

lemma element_step:
  assumes "r < length (objs s)"
  shows "r < length (objs (step x s)) \<and> element (objs (step x s) ! r) = element (objs s ! r)"
proof (cases x)
  case (Add e p)
  then show ?thesis using assms step_Add_fields [of e _ s] step_Add_NotFinite [of e s]
    by (cases p) (auto simp: nth_append)
next
  case Next
  then show ?thesis using assms step_Next_fields [of s] step_Next_empty [of s]
    by (cases "heapArr s = []") simp_all
next
  case (ChangePriority y p)
  from step_ChangePriority_fields [of y p s]
  have l: "length (objs (step (ChangePriority y p) s)) = length (objs s)"
    and m: "map element (objs (step (ChangePriority y p) s)) = map element (objs s)" by simp_all
  from assms l have "map element (objs (step (ChangePriority y p) s)) ! r
      = element (objs (step (ChangePriority y p) s) ! r)" by simp
  moreover from assms have "map element (objs s) ! r = element (objs s ! r)" by simp
  ultimately show ?thesis using ChangePriority assms l m by simp
next
  case (RemoveByRef y)
  then show ?thesis using assms step_RemoveByRef_cases [of y s] by auto
next
  case (RemoveByPosition p)
  from step_RemoveByPosition_cases [of p s] show ?thesis
  proof
    assume "step (RemoveByPosition p) s = s"
    with RemoveByPosition assms show ?thesis by simp
  next
    assume "\<exists>x. p = Num x \<and> 0 < x \<and> x \<le> real (length (heapArr s)) \<and> whole x
          \<and> step (RemoveByPosition p) s = step (RemoveByRef (heapArr s ! slot x)) s"
    then obtain v where "step (RemoveByPosition p) s = step (RemoveByRef (heapArr s ! slot v)) s"
      by blast
    with RemoveByPosition assms show ?thesis
      using step_RemoveByRef_cases [of "heapArr s ! slot v" s] by auto
  qed
next
  case Clear
  then show ?thesis using assms by (simp add: step_Clear_fields)
qed

lemma element_run:
  "r < length (objs s) \<Longrightarrow>
   r < length (objs (run xs s)) \<and> element (objs (run xs s) ! r) = element (objs s ! r)"
proof (induction xs arbitrary: s)
  case Nil
  then show ?case by simp
next
  case (Cons x xs)
  from element_step [OF Cons.prems, of x] Cons.IH [of "step x s"] show ?case by simp
qed

text \<open>What \<open>positionOf\<close> and \<open>at\<close> give for a queued entry.\<close>

lemma positionOf_queued:
  assumes "r \<in> set (heapArr s)"
  shows "\<exists>k. positionOf r s = Inr k \<and> 1 \<le> k \<and> k \<le> int (length_pq s)
           \<and> at_pq (Num (real_of_int k)) s = Inr (Some (r, element (objs s ! r)))"
proof -
  from index_of_mem [OF assms] obtain i where i: "index_of (heapArr s) r = Some i" by blast
  from index_of_Some [OF i] have il: "i < length (heapArr s)" and ir: "heapArr s ! i = r"
    by simp_all
  have p: "positionOf r s = Inr (int i + 1)"
    using i by (simp add: positionOf_def getIndexByReference_def)
  have w: "whole (real_of_int (int i + 1))" by (simp add: whole_def)
  have sl: "slot (real_of_int (int i + 1)) = i" by (simp add: slot_def)
  have "at_pq (Num (real_of_int (int i + 1))) s = Inr (Some (r, element (objs s ! r)))"
    using il ir w sl by (simp add: at_pq_def isNumber_def)
  with p il show ?thesis by (simp add: length_pq_def)
qed

text \<open>
  \<open>deletedElements\<close> gains only a reference that a call takes out, and loses one only by
  \<open>clear\<close>.
\<close>

lemma not_deleted_step:
  assumes "r \<notin> deletedElements s" and "\<not> removes r x s"
  shows "r \<notin> deletedElements (step x s)"
proof (cases x)
  case (Add e p)
  then show ?thesis using assms step_Add_fields [of e _ s] step_Add_NotFinite [of e s]
    by (cases p) auto
next
  case Next
  then show ?thesis using assms step_Next_fields [of s] step_Next_empty [of s]
    by (cases "heapArr s = []") auto
next
  case (ChangePriority y p)
  then show ?thesis using assms step_ChangePriority_fields [of y p s] by simp
next
  case (RemoveByRef y)
  then show ?thesis using assms step_RemoveByRef_cases [of y s] by auto
next
  case (RemoveByPosition p)
  from step_RemoveByPosition_cases [of p s] show ?thesis
  proof
    assume "step (RemoveByPosition p) s = s"
    with RemoveByPosition assms show ?thesis by simp
  next
    assume "\<exists>x. p = Num x \<and> 0 < x \<and> x \<le> real (length (heapArr s)) \<and> whole x
          \<and> step (RemoveByPosition p) s = step (RemoveByRef (heapArr s ! slot x)) s"
    then obtain v where p: "p = Num v" and v: "0 < v" "v \<le> real (length (heapArr s))" "whole v"
      and e: "step (RemoveByPosition p) s = step (RemoveByRef (heapArr s ! slot v)) s"
      by blast
    from assms(2) RemoveByPosition p v have "heapArr s ! slot v \<noteq> r" by simp
    with RemoveByPosition e assms(1) show ?thesis
      using step_RemoveByRef_cases [of "heapArr s ! slot v" s] by auto
  qed
next
  case Clear
  with assms show ?thesis by simp
qed

lemma not_deleted_run:
  "r \<notin> deletedElements s \<Longrightarrow> keeps r xs s \<Longrightarrow> r \<notin> deletedElements (run xs s)"
proof (induction xs arbitrary: s)
  case Nil
  then show ?case by simp
next
  case (Cons x xs)
  from Cons.prems have "r \<notin> deletedElements (step x s)" and "keeps r xs (step x s)"
    by (simp_all add: not_deleted_step)
  then show ?case using Cons.IH by simp
qed

lemma deleted_step:
  assumes "r \<in> deletedElements s" and "x \<noteq> Clear"
  shows "r \<in> deletedElements (step x s)"
proof (cases x)
  case (Add e p)
  then show ?thesis using assms step_Add_fields [of e _ s] step_Add_NotFinite [of e s]
    by (cases p) auto
next
  case Next
  then show ?thesis using assms step_Next_fields [of s] step_Next_empty [of s]
    by (cases "heapArr s = []") auto
next
  case (ChangePriority y p)
  then show ?thesis using assms step_ChangePriority_fields [of y p s] by simp
next
  case (RemoveByRef y)
  then show ?thesis using assms step_RemoveByRef_cases [of y s] by auto
next
  case (RemoveByPosition p)
  from step_RemoveByPosition_cases [of p s] show ?thesis
  proof
    assume "step (RemoveByPosition p) s = s"
    with RemoveByPosition assms show ?thesis by simp
  next
    assume "\<exists>x. p = Num x \<and> 0 < x \<and> x \<le> real (length (heapArr s)) \<and> whole x
          \<and> step (RemoveByPosition p) s = step (RemoveByRef (heapArr s ! slot x)) s"
    then obtain v where "step (RemoveByPosition p) s = step (RemoveByRef (heapArr s ! slot v)) s"
      by blast
    with RemoveByPosition assms(1) show ?thesis
      using step_RemoveByRef_cases [of "heapArr s ! slot v" s] by auto
  qed
next
  case Clear
  with assms show ?thesis by simp
qed

lemma deleted_run:
  "r \<in> deletedElements s \<Longrightarrow> Clear \<notin> set xs \<Longrightarrow> r \<in> deletedElements (run xs s)"
proof (induction xs arbitrary: s)
  case Nil
  then show ?case by simp
next
  case (Cons x xs)
  from Cons.prems have "r \<in> deletedElements (step x s)" and "Clear \<notin> set xs"
    by (auto simp: deleted_step)
  then show ?case using Cons.IH by simp
qed

text \<open>
  Starting from the empty queue, \<open>heapArr\<close> and \<open>deletedElements\<close> hold allocated
  objects only, so the object that \<open>add\<close> creates next is in neither.
\<close>

lemma allocated_step:
  assumes "\<forall>r \<in> set (heapArr s) \<union> deletedElements s. r < length (objs s)"
  shows "\<forall>r \<in> set (heapArr (step x s)) \<union> deletedElements (step x s). r < length (objs (step x s))"
proof (cases x)
  case (Add e p)
  then show ?thesis using assms step_Add_fields [of e _ s] step_Add_NotFinite [of e s]
    by (cases p) (auto simp: less_Suc_eq)
next
  case Next
  show ?thesis
  proof (cases "heapArr s = []")
    case True
    with Next assms show ?thesis by (simp add: step_Next_empty)
  next
    case False
    then have "heapArr s ! 0 \<in> set (heapArr s)" by simp
    with Next assms step_Next_fields [OF False] show ?thesis by auto
  qed
next
  case (ChangePriority y p)
  then show ?thesis using assms step_ChangePriority_fields [of y p s] by simp
next
  case (RemoveByRef y)
  then show ?thesis using assms step_RemoveByRef_cases [of y s] set_splice1_subset
    by fastforce
next
  case (RemoveByPosition p)
  from step_RemoveByPosition_cases [of p s] show ?thesis
  proof
    assume "step (RemoveByPosition p) s = s"
    with RemoveByPosition assms show ?thesis by simp
  next
    assume "\<exists>x. p = Num x \<and> 0 < x \<and> x \<le> real (length (heapArr s)) \<and> whole x
          \<and> step (RemoveByPosition p) s = step (RemoveByRef (heapArr s ! slot x)) s"
    then obtain v where "step (RemoveByPosition p) s = step (RemoveByRef (heapArr s ! slot v)) s"
      by blast
    with RemoveByPosition assms show ?thesis
      using step_RemoveByRef_cases [of "heapArr s ! slot v" s] set_splice1_subset
      by fastforce
  qed
next
  case Clear
  then show ?thesis by (simp add: step_Clear_fields)
qed

lemma allocated_run:
  "\<forall>r \<in> set (heapArr s) \<union> deletedElements s. r < length (objs s) \<Longrightarrow>
   \<forall>r \<in> set (heapArr (run xs s)) \<union> deletedElements (run xs s). r < length (objs (run xs s))"
proof (induction xs arbitrary: s)
  case Nil
  then show ?case by simp
next
  case (Cons x xs)
  from allocated_step [OF Cons.prems, of x] Cons.IH [of "step x s"] show ?case by simp
qed

lemma add_Inr:
  assumes "add e p s0 = (Inr r, s1)"
  shows "\<exists>x. p = Num x \<and> r = length (objs s0) \<and> s1 = step (Add e (Num x)) s0"
proof (cases p)
  case NotFiniteNumber
  with assms show ?thesis by (simp add: add_NotFinite)
next
  case (Num x)
  with assms add_effect [of e x s0] show ?thesis by (auto simp: step.simps)
qed



subsection \<open>Where the operations do behave as documented\<close>

text \<open>\<open>next\<close> on a queue of two or more entries takes the root out.\<close>

lemma next_on_longer_queue:
  assumes "2 \<le> length (heapArr s)"
  shows "fst (next_pq s) = Inr (Some (element (objs s ! (heapArr s ! 0))))
         \<and> mset (heapArr (snd (next_pq s))) = mset (heapArr s) - {#heapArr s ! 0#}
         \<and> length_pq (snd (next_pq s)) = length_pq s - 1"
proof -
  from assms have ne: "heapArr s \<noteq> []" and n1: "length (heapArr s) \<noteq> 1" by auto
  from next_effect [OF ne] n1 obtain h' where
    a: "next_pq s =
     (Inr (Some (element (objs s ! (heapArr s ! 0)))),
      s\<lparr>heapArr := h',
        prioritiesObj := decreasePriority (prio s (heapArr s ! 0)) (prioritiesObj s),
        references := references s - {heapArr s ! 0},
        deletedElements := insert (heapArr s ! 0) (deletedElements s)\<rparr>)"
    and m: "mset h' = mset (heapArr s) - {#heapArr s ! 0#}" by auto
  from ne have "heapArr s ! 0 \<in># mset (heapArr s)" by simp
  then have "size (mset (heapArr s) - {#heapArr s ! 0#}) = size (mset (heapArr s)) - 1"
    by (simp add: size_Diff_singleton)
  with m have "size (mset h') = size (mset (heapArr s)) - 1" by simp
  then have "length h' = length (heapArr s) - 1" by simp
  with m show ?thesis by (simp add: a length_pq_def)
qed


lemma positionOf_never_minus_one: "positionOf r s \<noteq> Inr (- 1)"
  by (simp add: positionOf_def split: sum.splits)

text \<open>
  \<open>changePriority\<close> on a reference that is in \<open>references\<close> and queued returns the rank
  at which \<open>positionOf\<close> finds the entry afterwards.
\<close>

lemma changePriority_on_queued:
  assumes "r \<in> references s" and "r \<in> set (heapArr s)"
  shows "\<exists>k. fst (changePriority r (Num p) s) = Inr k \<and> 1 \<le> k
             \<and> k \<le> int (length_pq (snd (changePriority r (Num p) s)))
             \<and> positionOf r (snd (changePriority r (Num p) s)) = Inr k"
proof -
  from changePriority_effect [OF assms(1), of p] assms(2) obtain h' where
    a: "changePriority r (Num p) s =
       (Inr (findIndex h' r + 1),
        s\<lparr>objs := (objs s)[r := (objs s ! r)\<lparr>priority := p\<rparr>],
          prioritiesObj := increasePriority p (decreasePriority (prio s r) (prioritiesObj s)),
          heapArr := h'\<rparr>)"
    and m: "mset h' = mset (heapArr s)" by blast
  from m have "set h' = set (heapArr s)" by (rule mset_eq_setD)
  with assms(2) have q: "r \<in> set h'" by simp
  from index_of_mem [OF q] obtain i where i: "index_of h' r = Some i" by blast
  from index_of_Some [OF i] have "i < length h'" by simp
  with i show ?thesis
    by (simp add: a findIndex_def positionOf_def getIndexByReference_def length_pq_def)
qed

subsection \<open>The values of the histogram\<close>

text \<open>
  Every value that \<open>increasePriority\<close> and \<open>decreasePriority\<close> leave in \<open>prioritiesObj\<close>
  is NaN or a count of at least 1: a count of 1 is deleted, not decremented.
\<close>

lemma counts_positive_update:
  assumes "counts_positive h" and "positive_or_NaN v"
  shows "counts_positive (AList.update k v h)"
  using assms by (induction h) (auto simp: counts_positive_def)

lemma counts_positive_delete:
  assumes "counts_positive h"
  shows "counts_positive (AList.delete k h)"
  using assms by (induction h) (auto simp: counts_positive_def)

lemma counts_positive_lookup:
  assumes "counts_positive h" and "map_of h p = Some c"
  shows "positive_or_NaN c"
proof -
  from assms(2) have "(p, c) \<in> set h" by (rule map_of_SomeD)
  with assms(1) show ?thesis by (auto simp: counts_positive_def list_all_iff)
qed

lemma increasePriority_counts:
  assumes "counts_positive h"
  shows "counts_positive (increasePriority p h)"
proof (cases "map_of h p")
  case None
  then have "increasePriority p h = AList.update p (Cnt 1) h" by (simp add: increasePriority_def)
  with assms show ?thesis by (simp add: counts_positive_update)
next
  case (Some c)
  from counts_positive_lookup [OF assms Some] have c: "positive_or_NaN c" .
  show ?thesis
  proof (cases c)
    case NaN
    with Some have "increasePriority p h = AList.update p (Cnt 1) h"
      by (simp add: increasePriority_def)
    with assms show ?thesis by (simp add: counts_positive_update)
  next
    case (Cnt n)
    with c have n: "1 \<le> n" by simp
    with Some Cnt have "increasePriority p h = AList.update p (Cnt (n + 1)) h"
      by (simp add: increasePriority_def)
    with assms n show ?thesis by (simp add: counts_positive_update)
  qed
qed

lemma decreasePriority_counts:
  assumes "counts_positive h"
  shows "counts_positive (decreasePriority p h)"
proof (cases "map_of h p")
  case None
  then have "decreasePriority p h = AList.update p NaN h" by (simp add: decreasePriority_def)
  with assms show ?thesis by (simp add: counts_positive_update)
next
  case (Some c)
  from counts_positive_lookup [OF assms Some] have c: "positive_or_NaN c" .
  show ?thesis
  proof (cases c)
    case NaN
    with Some have "decreasePriority p h = AList.update p NaN h"
      by (simp add: decreasePriority_def)
    with assms show ?thesis by (simp add: counts_positive_update)
  next
    case (Cnt n)
    with c have n: "1 \<le> n" by simp
    show ?thesis
    proof (cases "n = 1")
      case True
      with Some Cnt have "decreasePriority p h = AList.delete p h"
        by (simp add: decreasePriority_def)
      with assms show ?thesis by (simp add: counts_positive_delete)
    next
      case False
      with n have n2: "1 \<le> n - 1" by simp
      from False Some Cnt have "decreasePriority p h = AList.update p (Cnt (n - 1)) h"
        by (simp add: decreasePriority_def)
      with assms n2 show ?thesis by (simp add: counts_positive_update)
    qed
  qed
qed

lemma counts_positive_step:
  assumes "counts_positive (prioritiesObj s)"
  shows "counts_positive (prioritiesObj (step x s))"
proof (cases x)
  case (Add e p)
  show ?thesis
  proof (cases p)
    case NotFiniteNumber
    with Add assms show ?thesis by (simp add: step_Add_NotFinite)
  next
    case (Num v)
    from add_effect [of e v s] obtain h' where
      "add e (Num v) s =
       (Inr (length (objs s)),
        s\<lparr>heapArr := h',
          objs := objs s @ [\<lparr>element = e, priority = v\<rparr>],
          prioritiesObj := increasePriority v (prioritiesObj s),
          counterDequeuedElements := counterDequeuedElements s + 1,
          references := insert (length (objs s)) (references s)\<rparr>)" by blast
    then have "prioritiesObj (step (Add e (Num v)) s) = increasePriority v (prioritiesObj s)"
      by (simp add: step.simps)
    with Add Num assms show ?thesis by (simp add: increasePriority_counts)
  qed
next
  case Next
  show ?thesis
  proof (cases "heapArr s = []")
    case True
    with Next assms show ?thesis by (simp add: step_Next_empty)
  next
    case False
    from next_effect [OF False] obtain h' where
      "next_pq s =
       (Inr (Some (element (objs s ! (heapArr s ! 0)))),
        s\<lparr>heapArr := h',
          prioritiesObj := decreasePriority (prio s (heapArr s ! 0)) (prioritiesObj s),
          references := references s - {heapArr s ! 0},
          deletedElements := insert (heapArr s ! 0) (deletedElements s)\<rparr>)" by blast
    then have "prioritiesObj (step Next s)
               = decreasePriority (prio s (heapArr s ! 0)) (prioritiesObj s)"
      by (simp add: step.simps)
    with Next assms show ?thesis by (simp add: decreasePriority_counts)
  qed
next
  case (ChangePriority r p)
  show ?thesis
  proof (cases p)
    case NotFiniteNumber
    with ChangePriority assms show ?thesis by (simp add: step.simps changePriority_NotFinite)
  next
    case (Num v)
    show ?thesis
    proof (cases "r \<in> references s")
      case False
      with ChangePriority Num assms show ?thesis by (simp add: step.simps changePriority_invalid)
    next
      case True
      from changePriority_effect [OF True, of v] obtain res h' where
        "changePriority r (Num v) s =
         (res,
          s\<lparr>objs := (objs s)[r := (objs s ! r)\<lparr>priority := v\<rparr>],
            prioritiesObj := increasePriority v (decreasePriority (prio s r) (prioritiesObj s)),
            heapArr := h'\<rparr>)" by blast
      then have "prioritiesObj (step (ChangePriority r (Num v)) s)
                 = increasePriority v (decreasePriority (prio s r) (prioritiesObj s))"
        by (simp add: step.simps)
      with ChangePriority Num assms show ?thesis
        by (simp add: increasePriority_counts decreasePriority_counts)
    qed
  qed
next
  case (RemoveByRef r)
  have "counts_positive (prioritiesObj (step (RemoveByRef y) s))" for y
  proof (cases "y \<in> deletedElements s")
    case True
    with assms show ?thesis by (simp add: step.simps removeByRef_deleted)
  next
    case nd: False
    show ?thesis
    proof (cases "y \<in> set (heapArr s)")
      case False
      with nd assms show ?thesis by (simp add: step.simps removeByRef_invalid)
    next
      case True
      from removeByRef_effect [OF nd True] obtain i where
        "removeByRef y s =
         (Inr True,
          s\<lparr>heapArr := splice1 i (heapArr s),
            prioritiesObj := decreasePriority (prio s y) (prioritiesObj s),
            deletedElements := insert y (deletedElements s)\<rparr>)" by blast
      then have "prioritiesObj (step (RemoveByRef y) s)
                 = decreasePriority (prio s y) (prioritiesObj s)"
        by (simp add: step.simps)
      with assms show ?thesis by (simp add: decreasePriority_counts)
    qed
  qed
  with RemoveByRef show ?thesis by simp
next
  case (RemoveByPosition p)
  have rr: "counts_positive (prioritiesObj (step (RemoveByRef y) s))" for y
  proof (cases "y \<in> deletedElements s")
    case True
    with assms show ?thesis by (simp add: step.simps removeByRef_deleted)
  next
    case nd: False
    show ?thesis
    proof (cases "y \<in> set (heapArr s)")
      case False
      with nd assms show ?thesis by (simp add: step.simps removeByRef_invalid)
    next
      case True
      from removeByRef_effect [OF nd True] obtain i where
        "removeByRef y s =
         (Inr True,
          s\<lparr>heapArr := splice1 i (heapArr s),
            prioritiesObj := decreasePriority (prio s y) (prioritiesObj s),
            deletedElements := insert y (deletedElements s)\<rparr>)" by blast
      then have "prioritiesObj (step (RemoveByRef y) s)
                 = decreasePriority (prio s y) (prioritiesObj s)"
        by (simp add: step.simps)
      with assms show ?thesis by (simp add: decreasePriority_counts)
    qed
  qed
  from step_RemoveByPosition_cases [of p s] show ?thesis
  proof
    assume "step (RemoveByPosition p) s = s"
    with RemoveByPosition assms show ?thesis by simp
  next
    assume "\<exists>x. p = Num x \<and> 0 < x \<and> x \<le> real (length (heapArr s)) \<and> whole x
          \<and> step (RemoveByPosition p) s = step (RemoveByRef (heapArr s ! slot x)) s"
    then obtain v where "step (RemoveByPosition p) s = step (RemoveByRef (heapArr s ! slot v)) s"
      by blast
    with RemoveByPosition rr [of "heapArr s ! slot v"] show ?thesis by simp
  qed
next
  case Clear
  then show ?thesis by (simp add: step.simps clear_def counts_positive_def)
qed

text \<open>No state reached from the empty queue has a priority with the count 0.\<close>

lemma counts_positive_run:
  "counts_positive (prioritiesObj s) \<Longrightarrow> counts_positive (prioritiesObj (run xs s))"
proof (induction xs arbitrary: s)
  case Nil
  then show ?case by simp
next
  case (Cons x xs)
  from counts_positive_step [OF Cons.prems, of x] Cons.IH [of "step x s"] show ?case by simp
qed

lemma no_count_is_zero: "(k, c) \<in> set (stats (run xs new_pq)) \<Longrightarrow> c \<noteq> Cnt 0"
proof -
  assume a: "(k, c) \<in> set (stats (run xs new_pq))"
  have "counts_positive (prioritiesObj (new_pq :: 'a pq))"
    by (simp add: new_pq_def counts_positive_def)
  then have "counts_positive (prioritiesObj (run xs (new_pq :: 'a pq)))"
    by (rule counts_positive_run)
  with a have "positive_or_NaN c" by (auto simp: counts_positive_def list_all_iff stats_def)
  then show ?thesis by auto
qed

subsection \<open>The sift loops restore the heap ordering\<close>

lemma heap_ordered_children:
  "heap_ordered s \<longleftrightarrow>
     (\<forall>i. (2 * i + 1 < length (heapArr s)
             \<longrightarrow> prio s (heapArr s ! i) \<ge> prio s (heapArr s ! (2 * i + 1)))
        \<and> (2 * i + 2 < length (heapArr s)
             \<longrightarrow> prio s (heapArr s ! i) \<ge> prio s (heapArr s ! (2 * i + 2))))"
  unfolding heap_ordered_def list_all_iff by (auto split: if_splits)

lemma heap_ordered_iff:
  "heap_ordered s \<longleftrightarrow>
     (\<forall>j. 0 < j \<and> j < length (heapArr s) \<longrightarrow> parent_ge (prio s) (heapArr s) j)"
proof
  assume h: "heap_ordered s"
  show "\<forall>j. 0 < j \<and> j < length (heapArr s) \<longrightarrow> parent_ge (prio s) (heapArr s) j"
  proof (intro allI impI)
    fix j assume j: "0 < j \<and> j < length (heapArr s)"
    let ?i = "(j - 1) div 2"
    from j have c: "j = 2 * ?i + 1 \<or> j = 2 * ?i + 2" by arith
    from h [unfolded heap_ordered_children, rule_format, of ?i] c j
    show "parent_ge (prio s) (heapArr s) j"
      unfolding parent_ge_def by metis
  qed
next
  assume a: "\<forall>j. 0 < j \<and> j < length (heapArr s) \<longrightarrow> parent_ge (prio s) (heapArr s) j"
  have "(2 * i + 1 < length (heapArr s)
           \<longrightarrow> prio s (heapArr s ! i) \<ge> prio s (heapArr s ! (2 * i + 1)))
        \<and> (2 * i + 2 < length (heapArr s)
           \<longrightarrow> prio s (heapArr s ! i) \<ge> prio s (heapArr s ! (2 * i + 2)))" for i
  proof -
    have "(2 * i + 1 - 1) div 2 = i" and "(2 * i + 2 - 1) div 2 = i" by arith+
    with a [rule_format, of "2 * i + 1"] a [rule_format, of "2 * i + 2"]
    show ?thesis by (simp add: parent_ge_def)
  qed
  then show "heap_ordered s" unfolding heap_ordered_children by blast
qed

text \<open>
  \<open>bubbleUp\<close>: if every entry but the one at \<open>i\<close> is below its parent, and the children of
  \<open>i\<close> are below the parent of \<open>i\<close>, then after the loop every entry is below its parent.
\<close>

lemma bubbleUp_loop_heap:
  assumes "i < length h" and "h ! i = e"
    and "\<forall>j. 0 < j \<and> j < length h \<and> j \<noteq> i \<longrightarrow> parent_ge P h j"
    and "\<forall>c. 0 < i \<and> 0 < c \<and> c < length h \<and> (c - 1) div 2 = i
             \<longrightarrow> P (h ! ((i - 1) div 2)) \<ge> P (h ! c)"
  shows "\<forall>j. 0 < j \<and> j < length h \<longrightarrow> parent_ge P (bubbleUp_loop P e h i) j"
  using assms
proof (induction P e h i rule: bubbleUp_loop.induct)
  case (1 P e h i)
  let ?p = "(i - 1) div 2"
  show ?case
  proof (cases "i = 0")
    case True
    then have "bubbleUp_loop P e h i = h" by (simp add: bubbleUp_loop.simps [of P e h 0])
    with True "1.prems"(3) show ?thesis by simp
  next
    case i0: False
    show ?thesis
    proof (cases "P (h ! ?p) \<ge> P e")
      case True
      with i0 have r: "bubbleUp_loop P e h i = h"
        by (simp add: bubbleUp_loop.simps [of P e h i] Let_def)
      have "parent_ge P h j" if "0 < j \<and> j < length h" for j
      proof (cases "j = i")
        case True
        with \<open>P (h ! ?p) \<ge> P e\<close> "1.prems"(2) show ?thesis by (simp add: parent_ge_def)
      next
        case False
        with that "1.prems"(3) show ?thesis by simp
      qed
      with r show ?thesis by simp
    next
      case lt: False
      let ?h = "h[?p := e, i := h ! ?p]"
      from i0 have pi: "?p < i" by arith
      with "1.prems"(1) have pl: "?p < length h" by simp
      have el: "?h ! x = (if x = i then h ! ?p else if x = ?p then e else h ! x)"
        if "x < length h" for x
        using that pl by (simp add: nth_list_update)
      from lt have ep: "P (h ! ?p) \<le> P e" by simp
      have a1: "?p < length ?h" using pl by simp
      have a2: "?h ! ?p = e" using el [OF pl] pi by simp
      have a3: "\<forall>j. 0 < j \<and> j < length ?h \<and> j \<noteq> ?p \<longrightarrow> parent_ge P ?h j"
      proof (intro allI impI)
        fix j assume j: "0 < j \<and> j < length ?h \<and> j \<noteq> ?p"
        let ?q = "(j - 1) div 2"
        from j have jl: "j < length h" and ql: "?q < length h" and qj: "?q < j" by auto
        show "parent_ge P ?h j"
        proof (cases "j = i")
          case True
          with el [OF jl] have "?h ! j = h ! ?p" by simp
          moreover from True el [OF ql] pi have "?h ! ?q = e" by simp
          ultimately show ?thesis using ep by (simp only: parent_ge_def)
        next
          case ji: False
          with j el [OF jl] have hj: "?h ! j = h ! j" by simp
          from "1.prems"(3) j ji jl have old: "P (h ! ?q) \<ge> P (h ! j)"
            by (simp add: parent_ge_def)
          show ?thesis
          proof (cases "?q = i")
            case True
            with "1.prems"(4) i0 j jl have "P (h ! ?p) \<ge> P (h ! j)" by simp
            moreover from True el [OF ql] have "?h ! ?q = h ! ?p" by simp
            ultimately show ?thesis by (simp only: parent_ge_def hj)
          next
            case qi: False
            show ?thesis
            proof (cases "?q = ?p")
              case True
              with old ep have "P e \<ge> P (h ! j)" by simp
              moreover from True qi el [OF ql] have "?h ! ?q = e" by simp
              ultimately show ?thesis by (simp only: parent_ge_def hj)
            next
              case False
              with qi el [OF ql] have "?h ! ?q = h ! ?q" by simp
              with old show ?thesis by (simp only: parent_ge_def hj)
            qed
          qed
        qed
      qed
      have a4: "\<forall>c. 0 < ?p \<and> 0 < c \<and> c < length ?h \<and> (c - 1) div 2 = ?p
                   \<longrightarrow> P (?h ! ((?p - 1) div 2)) \<ge> P (?h ! c)"
      proof (intro allI impI)
        fix c assume c: "0 < ?p \<and> 0 < c \<and> c < length ?h \<and> (c - 1) div 2 = ?p"
        let ?g = "(?p - 1) div 2"
        from c have gp: "?g < ?p" by arith
        with pl pi have gl: "?g < length h" and gi: "?g \<noteq> i" by simp_all
        from el [OF gl] gp gi have hg: "?h ! ?g = h ! ?g" by simp
        from c have cl: "c < length h" by simp
        from c have "(c - 1) div 2 < c" by arith
        with c have cp: "c \<noteq> ?p" by simp
        from "1.prems"(3) c pl pi have up: "P (h ! ?g) \<ge> P (h ! ?p)"
          by (simp add: parent_ge_def)
        show "P (?h ! ?g) \<ge> P (?h ! c)"
        proof (cases "c = i")
          case True
          with el [OF cl] have "?h ! c = h ! ?p" by simp
          with up show ?thesis by (simp only: hg)
        next
          case False
          with "1.prems"(3) [rule_format, of c] c cl have "P (h ! ?p) \<ge> P (h ! c)"
            by (simp add: parent_ge_def)
          with up have "P (h ! ?g) \<ge> P (h ! c)" by simp
          moreover from False cp el [OF cl] have "?h ! c = h ! c" by simp
          ultimately show ?thesis by (simp only: hg)
        qed
      qed
      from "1.IH" [OF i0 refl refl lt a1 a2 a3 a4]
      have "\<forall>j. 0 < j \<and> j < length ?h \<longrightarrow> parent_ge P (bubbleUp_loop P e ?h ?p) j" .
      moreover have "bubbleUp_loop P e h i = bubbleUp_loop P e ?h ?p"
        using i0 lt by (simp add: bubbleUp_loop.simps [of P e h i] Let_def)
      ultimately show ?thesis by simp
    qed
  qed
qed

lemma ourPriorityIndex_choice:
  "(ourPriorityIndex P h i = i \<or> ourPriorityIndex P h i = 2 * i + 1
      \<or> ourPriorityIndex P h i = 2 * i + 2)
   \<and> P (h ! i) \<le> P (h ! ourPriorityIndex P h i)
   \<and> (2 * i + 1 < length h \<longrightarrow> P (h ! (2 * i + 1)) \<le> P (h ! ourPriorityIndex P h i))
   \<and> (2 * i + 2 < length h \<longrightarrow> P (h ! (2 * i + 2)) \<le> P (h ! ourPriorityIndex P h i))"
  by (auto simp: ourPriorityIndex_def Let_def)

text \<open>
  \<open>bubbleDown\<close>: if every entry whose parent is not \<open>i\<close> is below its parent, and the
  children of \<open>i\<close> are below the parent of \<open>i\<close>, then after the loop every entry is below
  its parent.
\<close>

lemma bubbleDown_loop_heap:
  assumes "i < length h" and "h ! i = e"
    and "\<forall>j. 0 < j \<and> j < length h \<and> (j - 1) div 2 \<noteq> i \<longrightarrow> parent_ge P h j"
    and "\<forall>c. 0 < i \<and> 0 < c \<and> c < length h \<and> (c - 1) div 2 = i
             \<longrightarrow> P (h ! ((i - 1) div 2)) \<ge> P (h ! c)"
  shows "\<forall>j. 0 < j \<and> j < length h \<longrightarrow> parent_ge P (bubbleDown_loop P e h i) j"
  using assms
proof (induction P e h i rule: bubbleDown_loop.induct)
  case (1 P e h i)
  let ?c = "ourPriorityIndex P h i"
  note ch = ourPriorityIndex_choice [of P h i]
  show ?case
  proof (cases "?c = i")
    case True
    then have r: "bubbleDown_loop P e h i = h" by (simp add: bubbleDown_loop.simps [of P e h i])
    have "parent_ge P h j" if j: "0 < j \<and> j < length h" for j
    proof (cases "(j - 1) div 2 = i")
      case False
      with j "1.prems"(3) [rule_format, of j] show ?thesis by simp
    next
      case pj: True
      with j have "j = 2 * i + 1 \<or> j = 2 * i + 2" by arith
      with ch True j have "P (h ! j) \<le> P (h ! i)" by auto
      with pj show ?thesis by (simp add: parent_ge_def)
    qed
    with r show ?thesis by simp
  next
    case ci: False
    let ?h = "h[i := h ! ?c, ?c := e]"
    from ci ourPriorityIndex_cases [of P h i] have ic: "i < ?c" and cl: "?c < length h" by auto
    from ci ch have cc: "?c = 2 * i + 1 \<or> ?c = 2 * i + 2" by simp
    then have pc: "(?c - 1) div 2 = i" by arith
    from ch have ge: "P (h ! i) \<le> P (h ! ?c)" by simp
    have el: "?h ! x = (if x = ?c then e else if x = i then h ! ?c else h ! x)"
      if "x < length h" for x
      using that by (simp add: nth_list_update)
    have a1: "?c < length ?h" using cl by simp
    have a2: "?h ! ?c = e" using el [OF cl] by simp
    have a3: "\<forall>j. 0 < j \<and> j < length ?h \<and> (j - 1) div 2 \<noteq> ?c \<longrightarrow> parent_ge P ?h j"
    proof (intro allI impI)
      fix j assume j: "0 < j \<and> j < length ?h \<and> (j - 1) div 2 \<noteq> ?c"
      let ?q = "(j - 1) div 2"
      from j have jl: "j < length h" and ql: "?q < length h" and qj: "?q < j" by auto
      show "parent_ge P ?h j"
      proof (cases "j = ?c")
        case True
        with el [OF jl] "1.prems"(2) have "?h ! j = h ! i" by simp
        moreover from True pc el [OF ql] ic have "?h ! ?q = h ! ?c" by simp
        ultimately show ?thesis using ge by (simp only: parent_ge_def)
      next
        case jc: False
        show ?thesis
        proof (cases "j = i")
          case True
          with j have i0: "0 < i" by simp
          from True jc el [OF jl] have "?h ! j = h ! ?c" by simp
          moreover from True qj ic el [OF ql] have "?h ! ?q = h ! ((i - 1) div 2)" by simp
          moreover from "1.prems"(4) [rule_format, of ?c] i0 ic cl pc
          have "P (h ! ((i - 1) div 2)) \<ge> P (h ! ?c)" by simp
          ultimately show ?thesis by (simp only: parent_ge_def)
        next
          case ji: False
          with jc el [OF jl] have hj: "?h ! j = h ! j" by simp
          show ?thesis
          proof (cases "?q = i")
            case True
            with j have "j = 2 * i + 1 \<or> j = 2 * i + 2" by arith
            with ch jl have "P (h ! j) \<le> P (h ! ?c)" by auto
            moreover from True ic el [OF ql] have "?h ! ?q = h ! ?c" by simp
            ultimately show ?thesis by (simp only: parent_ge_def hj)
          next
            case False
            with j el [OF ql] have "?h ! ?q = h ! ?q" by simp
            moreover from False j jl "1.prems"(3) [rule_format, of j]
            have "P (h ! ?q) \<ge> P (h ! j)" by (simp add: parent_ge_def)
            ultimately show ?thesis by (simp only: parent_ge_def hj)
          qed
        qed
      qed
    qed
    have a4: "\<forall>d. 0 < ?c \<and> 0 < d \<and> d < length ?h \<and> (d - 1) div 2 = ?c
                 \<longrightarrow> P (?h ! ((?c - 1) div 2)) \<ge> P (?h ! d)"
    proof (intro allI impI)
      fix d assume d: "0 < ?c \<and> 0 < d \<and> d < length ?h \<and> (d - 1) div 2 = ?c"
      then have dl: "d < length h" by simp
      from d have "(d - 1) div 2 < d" by arith
      with d ic have dc: "d \<noteq> ?c" and di: "d \<noteq> i" by simp_all
      with el [OF dl] have hd: "?h ! d = h ! d" by simp
      from "1.prems"(1) ic el [of i] have hi: "?h ! i = h ! ?c" by simp
      from d dl ci "1.prems"(3) [rule_format, of d] have "P (h ! ?c) \<ge> P (h ! d)"
        by (simp add: parent_ge_def)
      then show "P (?h ! ((?c - 1) div 2)) \<ge> P (?h ! d)" by (simp only: pc hi hd)
    qed
    from "1.IH" [OF refl ci a1 a2 a3 a4]
    have "\<forall>j. 0 < j \<and> j < length ?h \<longrightarrow> parent_ge P (bubbleDown_loop P e ?h ?c) j" .
    moreover have "bubbleDown_loop P e h i = bubbleDown_loop P e ?h ?c"
      using ci by (simp add: bubbleDown_loop.simps [of P e h i] Let_def)
    ultimately show ?thesis by simp
  qed
qed

subsection \<open>The storage array after the calls that sift\<close>

lemma prio_objs: "objs s = objs t \<Longrightarrow> prio s = prio t"
  by (rule ext) (simp add: prio_def)

lemma prio_update_heapArr: "prio (s\<lparr>heapArr := h\<rparr>) = prio s"
  by (rule prio_objs) simp

lemma prio_update_prioritiesObj: "prio (s\<lparr>prioritiesObj := x\<rparr>) = prio s"
  by (rule prio_objs) simp

lemma add_heapArr:
  "heapArr (step (Add e (Num p)) s)
     = bubbleUp_loop (prio (s\<lparr>objs := objs s @ [\<lparr>element = e, priority = p\<rparr>]\<rparr>))
         (length (objs s)) (heapArr s @ [length (objs s)]) (length (heapArr s))
   \<and> objs (step (Add e (Num p)) s) = objs s @ [\<lparr>element = e, priority = p\<rparr>]"
proof -
  have "prio (s\<lparr>heapArr := heapArr s @ [length (objs s)],
                objs := objs s @ [\<lparr>element = e, priority = p\<rparr>]\<rparr>)
        = prio (s\<lparr>objs := objs s @ [\<lparr>element = e, priority = p\<rparr>]\<rparr>)"
    by (rule prio_objs) simp
  then show ?thesis
    by (simp add: step.simps add_def isNumber_def bubbleUp_def Let_def)
qed

lemma next_heapArr:
  assumes "heapArr s \<noteq> []"
  shows "heapArr (step Next s)
     = bubbleDown_loop (prio s)
         ((if butlast (heapArr s) = [] then [last (heapArr s)]
           else (butlast (heapArr s))[0 := last (heapArr s)]) ! 0)
         (if butlast (heapArr s) = [] then [last (heapArr s)]
          else (butlast (heapArr s))[0 := last (heapArr s)]) 0
   \<and> objs (step Next s) = objs s"
  using assms
  by (simp add: step.simps next_pq_def bubbleDown_def Let_def prio_update_heapArr)

lemma changePriority_heapArr:
  assumes "r \<in> references s"
  shows "heapArr (step (ChangePriority r (Num p)) s)
     = (if r \<in> set (heapArr s)
        then (if prio s r > p
              then bubbleDown_loop (prio (s\<lparr>objs := (objs s)[r := (objs s ! r)\<lparr>priority := p\<rparr>]\<rparr>))
                     r (heapArr s) (nat (findIndex (heapArr s) r))
              else if prio s r < p
              then bubbleUp_loop (prio (s\<lparr>objs := (objs s)[r := (objs s ! r)\<lparr>priority := p\<rparr>]\<rparr>))
                     r (heapArr s) (nat (findIndex (heapArr s) r))
              else heapArr s)
        else heapArr s)
   \<and> objs (step (ChangePriority r (Num p)) s) = (objs s)[r := (objs s ! r)\<lparr>priority := p\<rparr>]"
proof -
  let ?s3 = "s\<lparr>objs := (objs s)[r := (objs s ! r)\<lparr>priority := p\<rparr>],
               prioritiesObj := increasePriority p (decreasePriority (prio s r) (prioritiesObj s))\<rparr>"
  let ?k = "findIndex (heapArr s) r"
  let ?sifted = "(if prio s r > p then bubbleDown ?k ?s3
                  else if prio s r < p then bubbleUp ?k ?s3 else Inr ?s3)"
  have cp: "changePriority r (Num p) s =
      (case ?sifted of Inl e \<Rightarrow> (Inl e, ?s3)
       | Inr s4 \<Rightarrow> (Inr (if r \<in> references s4 then findIndex (heapArr s4) r + 1 else - 1), s4))"
    using assms
    by (simp add: changePriority_def isNumber_def getValueByReference_def Let_def
             cong: sum.case_cong)
  have pr: "prio ?s3 = prio (s\<lparr>objs := (objs s)[r := (objs s ! r)\<lparr>priority := p\<rparr>]\<rparr>)"
    by (rule prio_objs) simp
  show ?thesis
  proof (cases "r \<in> set (heapArr s)")
    case True
    from findIndex_range [OF True] have k0: "0 \<le> ?k" and hk: "heapArr s ! nat ?k = r"
      by simp_all
    then have "\<not> ?k < 0" by simp
    with hk pr show ?thesis
      by (simp add: step.simps cp bubbleDown_def bubbleUp_def True)
  next
    case False
    then have "?k = - 1" by (rule findIndex_absent)
    with False show ?thesis
      by (simp add: step.simps cp bubbleDown_def bubbleUp_def)
  qed
qed

subsection \<open>\<open>add\<close>, \<open>next\<close> and \<open>changePriority\<close> keep the heap ordering\<close>

lemma heap_ordered_add:
  assumes "heap_ordered s" and "\<forall>r \<in> set (heapArr s). r < length (objs s)"
  shows "heap_ordered (step (Add e p) s)"
proof (cases p)
  case NotFiniteNumber
  with assms(1) show ?thesis by (simp add: step_Add_NotFinite)
next
  case (Num v)
  let ?n = "length (heapArr s)"
  let ?new = "length (objs s)"
  let ?h = "heapArr s @ [?new]"
  let ?P = "prio (s\<lparr>objs := objs s @ [\<lparr>element = e, priority = v\<rparr>]\<rparr>)"
  let ?t = "step (Add e (Num v)) s"
  from add_heapArr [of e v s]
  have ht: "heapArr ?t = bubbleUp_loop ?P ?new ?h ?n"
    and ot: "objs ?t = objs s @ [\<lparr>element = e, priority = v\<rparr>]" by simp_all
  have pt: "prio ?t = ?P" by (rule prio_objs) (simp add: ot)
  have old: "?P (heapArr s ! j) = prio s (heapArr s ! j)" if "j < ?n" for j
  proof -
    from that assms(2) have "heapArr s ! j < length (objs s)" by simp
    then show ?thesis by (simp add: prio_def nth_append)
  qed
  have a1: "?n < length ?h" by simp
  have a2: "?h ! ?n = ?new" by simp
  have a3: "\<forall>j. 0 < j \<and> j < length ?h \<and> j \<noteq> ?n \<longrightarrow> parent_ge ?P ?h j"
  proof (intro allI impI)
    fix j assume j: "0 < j \<and> j < length ?h \<and> j \<noteq> ?n"
    then have jn: "j < ?n" and qn: "(j - 1) div 2 < ?n" by auto
    from assms(1) [unfolded heap_ordered_iff, rule_format, of j] j jn
    have "prio s (heapArr s ! ((j - 1) div 2)) \<ge> prio s (heapArr s ! j)"
      by (simp add: parent_ge_def)
    with old [OF jn] old [OF qn] jn qn show "parent_ge ?P ?h j"
      by (simp add: parent_ge_def nth_append)
  qed
  have a4: "\<forall>c. 0 < ?n \<and> 0 < c \<and> c < length ?h \<and> (c - 1) div 2 = ?n
               \<longrightarrow> ?P (?h ! ((?n - 1) div 2)) \<ge> ?P (?h ! c)"
  proof (intro allI impI)
    fix c assume c: "0 < ?n \<and> 0 < c \<and> c < length ?h \<and> (c - 1) div 2 = ?n"
    then have "(c - 1) div 2 < c" by arith
    with c have False by simp
    then show "?P (?h ! ((?n - 1) div 2)) \<ge> ?P (?h ! c)" ..
  qed
  from bubbleUp_loop_heap [OF a1 a2 a3 a4]
  have r: "\<forall>j. 0 < j \<and> j < length ?h \<longrightarrow> parent_ge ?P (bubbleUp_loop ?P ?new ?h ?n) j" .
  from mset_bubbleUp_loop [OF a1 a2, of ?P] have "length (bubbleUp_loop ?P ?new ?h ?n) = length ?h"
    by (rule mset_eq_length)
  with r ht pt have "heap_ordered ?t" unfolding heap_ordered_iff by simp
  with Num show ?thesis by simp
qed

lemma heap_ordered_next:
  assumes "heap_ordered s"
  shows "heap_ordered (step Next s)"
proof (cases "heapArr s = []")
  case True
  with assms show ?thesis by (simp add: step_Next_empty)
next
  case ne: False
  let ?h = "(if butlast (heapArr s) = [] then [last (heapArr s)]
             else (butlast (heapArr s))[0 := last (heapArr s)])"
  let ?t = "step Next s"
  from next_heapArr [OF ne]
  have ht: "heapArr ?t = bubbleDown_loop (prio s) (?h ! 0) ?h 0" and ot: "objs ?t = objs s"
    by simp_all
  have pt: "prio ?t = prio s" by (rule prio_objs) (simp add: ot)
  have a1: "0 < length ?h" by simp
  have a3: "\<forall>j. 0 < j \<and> j < length ?h \<and> (j - 1) div 2 \<noteq> 0 \<longrightarrow> parent_ge (prio s) ?h j"
  proof (intro allI impI)
    fix j assume j: "0 < j \<and> j < length ?h \<and> (j - 1) div 2 \<noteq> 0"
    then have b: "butlast (heapArr s) \<noteq> []" by (auto split: if_splits)
    with j have jl: "j < length (heapArr s) - 1" by simp
    then have ql: "(j - 1) div 2 < length (heapArr s) - 1" by arith
    from b j jl have hj: "?h ! j = heapArr s ! j" by (simp add: nth_butlast)
    from b j ql have hq: "?h ! ((j - 1) div 2) = heapArr s ! ((j - 1) div 2)"
      by (simp add: nth_butlast)
    from assms [unfolded heap_ordered_iff, rule_format, of j] j jl
    have "parent_ge (prio s) (heapArr s) j" by simp
    then show "parent_ge (prio s) ?h j" by (simp only: parent_ge_def hj hq)
  qed
  have a4: "\<forall>c. 0 < (0::nat) \<and> 0 < c \<and> c < length ?h \<and> (c - 1) div 2 = 0
               \<longrightarrow> prio s (?h ! ((0 - 1) div 2)) \<ge> prio s (?h ! c)" by simp
  from bubbleDown_loop_heap [OF a1 refl a3 a4]
  have r: "\<forall>j. 0 < j \<and> j < length ?h
             \<longrightarrow> parent_ge (prio s) (bubbleDown_loop (prio s) (?h ! 0) ?h 0) j" .
  from mset_bubbleDown_loop [where h = ?h and i = 0 and P = "prio s", OF refl]
  have "length (bubbleDown_loop (prio s) (?h ! 0) ?h 0) = length ?h" by (rule mset_eq_length)
  with r ht pt show ?thesis unfolding heap_ordered_iff by simp
qed

lemma heap_ordered_changePriority:
  assumes "heap_ordered s" and "distinct (heapArr s)"
    and "\<forall>r \<in> set (heapArr s). r < length (objs s)"
  shows "heap_ordered (step (ChangePriority r p) s)"
proof (cases p)
  case NotFiniteNumber
  with assms(1) show ?thesis by (simp add: step.simps changePriority_NotFinite)
next
  case (Num v)
  show ?thesis
  proof (cases "r \<in> references s")
    case False
    with Num assms(1) show ?thesis by (simp add: step.simps changePriority_invalid)
  next
    case rr: True
    let ?h = "heapArr s"
    let ?n = "length ?h"
    let ?P = "prio (s\<lparr>objs := (objs s)[r := (objs s ! r)\<lparr>priority := v\<rparr>]\<rparr>)"
    let ?k = "nat (findIndex ?h r)"
    let ?t = "step (ChangePriority r (Num v)) s"
    from changePriority_heapArr [OF rr, of v]
    have ht: "heapArr ?t
       = (if r \<in> set ?h
          then (if prio s r > v then bubbleDown_loop ?P r ?h ?k
                else if prio s r < v then bubbleUp_loop ?P r ?h ?k
                else ?h)
          else ?h)"
      and ot: "objs ?t = (objs s)[r := (objs s ! r)\<lparr>priority := v\<rparr>]" by simp_all
    have pt: "prio ?t = ?P" by (rule prio_objs) (simp add: ot)
    have other: "?P x = prio s x" if "x \<noteq> r" for x
      using that by (simp add: prio_def)
    have old: "\<forall>j. 0 < j \<and> j < ?n \<longrightarrow> prio s (?h ! ((j - 1) div 2)) \<ge> prio s (?h ! j)"
      using assms(1) unfolding heap_ordered_iff parent_ge_def .
    have "\<forall>j. 0 < j \<and> j < length (heapArr ?t) \<longrightarrow> parent_ge ?P (heapArr ?t) j"
    proof (cases "r \<in> set ?h")
      case False
      then have "?P (?h ! j) = prio s (?h ! j)" if "j < ?n" for j
        using that other [of "?h ! j"] by (metis nth_mem)
      moreover have "(j - 1) div 2 < ?n" if "j < ?n" for j using that by arith
      ultimately have "\<forall>j. 0 < j \<and> j < ?n \<longrightarrow> parent_ge ?P ?h j"
        using old by (simp add: parent_ge_def)
      with False ht show ?thesis by simp
    next
      case q: True
      from findIndex_range [OF q] have kn: "?k < ?n" and hk: "?h ! ?k = r" by simp_all
      from q assms(3) have "r < length (objs s)" by simp
      then have pr: "?P r = v" by (simp add: prio_def)
      have uniq: "?h ! j \<noteq> r" if "j < ?n" and "j \<noteq> ?k" for j
        using that kn hk assms(2) by (metis nth_eq_iff_index_eq)
      have same: "?P (?h ! j) = prio s (?h ! j)" if "j < ?n" and "j \<noteq> ?k" for j
        using uniq [OF that] by (rule other)
      have a4: "\<forall>c. 0 < ?k \<and> 0 < c \<and> c < ?n \<and> (c - 1) div 2 = ?k
                   \<longrightarrow> ?P (?h ! ((?k - 1) div 2)) \<ge> ?P (?h ! c)"
      proof (intro allI impI)
        fix c assume c: "0 < ?k \<and> 0 < c \<and> c < ?n \<and> (c - 1) div 2 = ?k"
        then have ck: "c \<noteq> ?k" and gk: "(?k - 1) div 2 \<noteq> ?k" and gn: "(?k - 1) div 2 < ?n"
          using kn by arith+
        from old [rule_format, of c] c have "prio s (?h ! ?k) \<ge> prio s (?h ! c)" by simp
        moreover from old [rule_format, of ?k] c kn
        have "prio s (?h ! ((?k - 1) div 2)) \<ge> prio s (?h ! ?k)" by simp
        ultimately have "prio s (?h ! ((?k - 1) div 2)) \<ge> prio s (?h ! c)" by simp
        with same [OF gn gk] same [of c] c ck
        show "?P (?h ! ((?k - 1) div 2)) \<ge> ?P (?h ! c)" by simp
      qed
      show ?thesis
      proof (cases "prio s r > v")
        case down: True
        have a3: "\<forall>j. 0 < j \<and> j < ?n \<and> (j - 1) div 2 \<noteq> ?k \<longrightarrow> parent_ge ?P ?h j"
        proof (intro allI impI)
          fix j assume j: "0 < j \<and> j < ?n \<and> (j - 1) div 2 \<noteq> ?k"
          then have qn: "(j - 1) div 2 < ?n" by arith
          from same [OF qn] j
          have pq: "?P (?h ! ((j - 1) div 2)) = prio s (?h ! ((j - 1) div 2))" by simp
          from old [rule_format, of j] j
          have o: "prio s (?h ! ((j - 1) div 2)) \<ge> prio s (?h ! j)" by simp
          show "parent_ge ?P ?h j"
          proof (cases "j = ?k")
            case True
            with o hk down pr have "prio s (?h ! ((j - 1) div 2)) \<ge> ?P (?h ! j)" by simp
            then show ?thesis by (simp only: parent_ge_def pq)
          next
            case False
            with same [of j] j o have "prio s (?h ! ((j - 1) div 2)) \<ge> ?P (?h ! j)" by simp
            then show ?thesis by (simp only: parent_ge_def pq)
          qed
        qed
        from bubbleDown_loop_heap [OF kn hk a3 a4]
        have "\<forall>j. 0 < j \<and> j < ?n \<longrightarrow> parent_ge ?P (bubbleDown_loop ?P r ?h ?k) j" .
        moreover from mset_bubbleDown_loop [OF hk, of ?P]
        have "length (bubbleDown_loop ?P r ?h ?k) = ?n" by (rule mset_eq_length)
        ultimately show ?thesis using q down ht by simp
      next
        case nd: False
        show ?thesis
        proof (cases "prio s r < v")
          case up: True
          have a3: "\<forall>j. 0 < j \<and> j < ?n \<and> j \<noteq> ?k \<longrightarrow> parent_ge ?P ?h j"
          proof (intro allI impI)
            fix j assume j: "0 < j \<and> j < ?n \<and> j \<noteq> ?k"
            then have qn: "(j - 1) div 2 < ?n" by arith
            from same [of j] j have pj: "?P (?h ! j) = prio s (?h ! j)" by simp
            from old [rule_format, of j] j
            have o: "prio s (?h ! ((j - 1) div 2)) \<ge> prio s (?h ! j)" by simp
            show "parent_ge ?P ?h j"
            proof (cases "(j - 1) div 2 = ?k")
              case True
              with o hk up pr have "?P (?h ! ((j - 1) div 2)) \<ge> prio s (?h ! j)" by simp
              then show ?thesis by (simp only: parent_ge_def pj)
            next
              case False
              with same [OF qn] o have "?P (?h ! ((j - 1) div 2)) \<ge> prio s (?h ! j)" by simp
              then show ?thesis by (simp only: parent_ge_def pj)
            qed
          qed
          from bubbleUp_loop_heap [OF kn hk a3 a4]
          have "\<forall>j. 0 < j \<and> j < ?n \<longrightarrow> parent_ge ?P (bubbleUp_loop ?P r ?h ?k) j" .
          moreover from mset_bubbleUp_loop [OF kn hk, of ?P]
          have "length (bubbleUp_loop ?P r ?h ?k) = ?n" by (rule mset_eq_length)
          ultimately show ?thesis using q nd up ht by simp
        next
          case False
          with nd have eq: "prio s r = v" by simp
          have "?P (?h ! j) = prio s (?h ! j)" if "j < ?n" for j
          proof (cases "j = ?k")
            case True
            with hk pr eq show ?thesis by simp
          next
            case False
            with that show ?thesis by (rule same)
          qed
          moreover have "(j - 1) div 2 < ?n" if "j < ?n" for j using that by arith
          ultimately have "\<forall>j. 0 < j \<and> j < ?n \<longrightarrow> parent_ge ?P ?h j"
            using old by (simp add: parent_ge_def)
          with q nd False ht show ?thesis by simp
        qed
      qed
    qed
    with pt have "heap_ordered ?t" unfolding heap_ordered_iff by simp
    with Num show ?thesis by simp
  qed
qed

subsection \<open>No entry is stored twice\<close>

lemma mset_heapArr_step:
  "mset (heapArr (step x s)) \<subseteq># add_mset (length (objs s)) (mset (heapArr s))"
proof -
  have sub: "mset (heapArr s) \<subseteq># add_mset (length (objs s)) (mset (heapArr s))" by simp
  have rr: "mset (heapArr (step (RemoveByRef y) s)) \<subseteq># mset (heapArr s)" for y
    using step_RemoveByRef_cases [of y s]
  proof
    assume "step (RemoveByRef y) s = s"
    then show ?thesis by simp
  next
    assume "y \<notin> deletedElements s \<and> y \<in> set (heapArr s)
      \<and> (\<exists>i < length (heapArr s). heapArr s ! i = y
            \<and> heapArr (step (RemoveByRef y) s) = splice1 i (heapArr s))
      \<and> references (step (RemoveByRef y) s) = references s
      \<and> deletedElements (step (RemoveByRef y) s) = insert y (deletedElements s)
      \<and> objs (step (RemoveByRef y) s) = objs s
      \<and> counterDequeuedElements (step (RemoveByRef y) s) = counterDequeuedElements s"
    then obtain i where "i < length (heapArr s)"
      and "heapArr (step (RemoveByRef y) s) = splice1 i (heapArr s)" by blast
    then show ?thesis by (simp add: mset_splice1)
  qed
  show ?thesis
  proof (cases x)
    case (Add e p)
    show ?thesis
    proof (cases p)
      case NotFiniteNumber
      with Add sub show ?thesis by (simp add: step_Add_NotFinite)
    next
      case (Num v)
      from add_effect [of e v s] obtain h' where
        "add e (Num v) s =
         (Inr (length (objs s)),
          s\<lparr>heapArr := h',
            objs := objs s @ [\<lparr>element = e, priority = v\<rparr>],
            prioritiesObj := increasePriority v (prioritiesObj s),
            counterDequeuedElements := counterDequeuedElements s + 1,
            references := insert (length (objs s)) (references s)\<rparr>)"
        and "mset h' = add_mset (length (objs s)) (mset (heapArr s))" by blast
      with Add Num show ?thesis by (simp add: step.simps)
    qed
  next
    case Next
    show ?thesis
    proof (cases "heapArr s = []")
      case True
      with Next sub show ?thesis by (simp add: step_Next_empty)
    next
      case False
      from next_effect [OF False] obtain h' where
        a: "next_pq s =
         (Inr (Some (element (objs s ! (heapArr s ! 0)))),
          s\<lparr>heapArr := h',
            prioritiesObj := decreasePriority (prio s (heapArr s ! 0)) (prioritiesObj s),
            references := references s - {heapArr s ! 0},
            deletedElements := insert (heapArr s ! 0) (deletedElements s)\<rparr>)"
        and m: "(if length (heapArr s) = 1 then h' = heapArr s
                 else mset h' = mset (heapArr s) - {#heapArr s ! 0#})" by blast
      from m have "mset h' \<subseteq># mset (heapArr s)" by (auto split: if_splits)
      from this sub have "mset h' \<subseteq># add_mset (length (objs s)) (mset (heapArr s))"
        by (rule subset_mset.order_trans)
      with Next a show ?thesis by (simp add: step.simps)
    qed
  next
    case (ChangePriority r p)
    show ?thesis
    proof (cases p)
      case NotFiniteNumber
      with ChangePriority sub show ?thesis by (simp add: step.simps changePriority_NotFinite)
    next
      case (Num v)
      show ?thesis
      proof (cases "r \<in> references s")
        case False
        with ChangePriority Num sub show ?thesis by (simp add: step.simps changePriority_invalid)
      next
        case True
        from changePriority_effect [OF True, of v] obtain res h' where
          "changePriority r (Num v) s =
           (res,
            s\<lparr>objs := (objs s)[r := (objs s ! r)\<lparr>priority := v\<rparr>],
              prioritiesObj := increasePriority v (decreasePriority (prio s r) (prioritiesObj s)),
              heapArr := h'\<rparr>)"
          and "mset h' = mset (heapArr s)" by blast
        with ChangePriority Num show ?thesis by (simp add: step.simps)
      qed
    qed
  next
    case (RemoveByRef y)
    from rr [of y] sub have "mset (heapArr (step (RemoveByRef y) s))
        \<subseteq># add_mset (length (objs s)) (mset (heapArr s))"
      by (rule subset_mset.order_trans)
    with RemoveByRef show ?thesis by simp
  next
    case (RemoveByPosition p)
    from step_RemoveByPosition_cases [of p s] show ?thesis
    proof
      assume "step (RemoveByPosition p) s = s"
      with RemoveByPosition sub show ?thesis by simp
    next
      assume "\<exists>x. p = Num x \<and> 0 < x \<and> x \<le> real (length (heapArr s)) \<and> whole x
            \<and> step (RemoveByPosition p) s = step (RemoveByRef (heapArr s ! slot x)) s"
      then obtain v where
        e: "step (RemoveByPosition p) s = step (RemoveByRef (heapArr s ! slot v)) s" by blast
      from rr [of "heapArr s ! slot v"] sub
      have "mset (heapArr (step (RemoveByRef (heapArr s ! slot v)) s))
          \<subseteq># add_mset (length (objs s)) (mset (heapArr s))"
        by (rule subset_mset.order_trans)
      with RemoveByPosition e show ?thesis by simp
    qed
  next
    case Clear
    then show ?thesis by (simp add: step_Clear_fields)
  qed
qed

lemma distinct_sub_mset:
  assumes "mset a \<subseteq># mset b" and "distinct b"
  shows "distinct a"
proof -
  have "count (mset a) x = (if x \<in> set a then 1 else 0)" for x
  proof (cases "x \<in> set a")
    case True
    then have "1 \<le> count (mset a) x" by (simp add: Suc_le_eq)
    moreover from assms(1) have "count (mset a) x \<le> count (mset b) x"
      by (rule mset_subset_eq_count)
    moreover from assms(2) have "count (mset b) x \<le> 1"
      by (simp add: distinct_count_atmost_1)
    ultimately have "count (mset a) x = 1" by arith
    with True show ?thesis by simp
  next
    case False
    then show ?thesis by (simp add: count_eq_zero_iff)
  qed
  then show ?thesis by (simp add: distinct_count_atmost_1)
qed

lemma distinct_step:
  assumes "distinct (heapArr s)" and "\<forall>r \<in> set (heapArr s). r < length (objs s)"
  shows "distinct (heapArr (step x s))"
proof -
  from assms(2) have "length (objs s) \<notin> set (heapArr s)" by auto
  with assms(1) have "distinct (length (objs s) # heapArr s)" by simp
  moreover from mset_heapArr_step [of x s]
  have "mset (heapArr (step x s)) \<subseteq># mset (length (objs s) # heapArr s)" by simp
  ultimately show ?thesis by (rule distinct_sub_mset [rotated])
qed

text \<open>
  So the heap ordering holds in every state reached from the empty queue by calls of
  \<open>add\<close>, \<open>next\<close>, \<open>changePriority\<close> and \<open>clear\<close>; only the two calls that splice
  can break it.
\<close>

lemma heap_ordered_step:
  assumes "heap_ordered s" and "distinct (heapArr s)"
    and "\<forall>r \<in> set (heapArr s) \<union> deletedElements s. r < length (objs s)"
    and "\<not> splices x"
  shows "heap_ordered (step x s)"
proof (cases x)
  case (Add e p)
  with assms(1,3) show ?thesis by (simp add: heap_ordered_add)
next
  case Next
  with assms(1) show ?thesis by (simp add: heap_ordered_next)
next
  case (ChangePriority r p)
  with assms(1,2,3) show ?thesis by (simp add: heap_ordered_changePriority)
next
  case (RemoveByRef r)
  with assms(4) show ?thesis by simp
next
  case (RemoveByPosition p)
  with assms(4) show ?thesis by simp
next
  case Clear
  then show ?thesis by (simp add: step_Clear_fields heap_ordered_def)
qed

lemma heap_ordered_run:
  assumes "heap_ordered s" and "distinct (heapArr s)"
    and "\<forall>r \<in> set (heapArr s) \<union> deletedElements s. r < length (objs s)"
    and "\<forall>x \<in> set xs. \<not> splices x"
  shows "heap_ordered (run xs s)"
  using assms
proof (induction xs arbitrary: s)
  case Nil
  then show ?case by simp
next
  case (Cons x xs)
  from Cons.prems have nx: "\<not> splices x" and rest: "\<forall>x \<in> set xs. \<not> splices x" by simp_all
  from Cons.prems(3) have al: "\<forall>r \<in> set (heapArr s). r < length (objs s)" by simp
  have "heap_ordered (step x s)"
    using Cons.prems(1,2,3) nx by (rule heap_ordered_step)
  moreover have "distinct (heapArr (step x s))"
    using Cons.prems(2) al by (rule distinct_step)
  moreover have "\<forall>r \<in> set (heapArr (step x s)) \<union> deletedElements (step x s).
                   r < length (objs (step x s))"
    using Cons.prems(3) by (rule allocated_step)
  ultimately have "heap_ordered (run xs (step x s))" using rest by (rule Cons.IH)
  then show ?case by simp
qed

lemma heap_ordered_without_splice:
  "\<forall>x \<in> set xs. \<not> splices x \<Longrightarrow> heap_ordered (run xs new_pq)"
proof -
  assume a: "\<forall>x \<in> set xs. \<not> splices x"
  have "heap_ordered (new_pq :: 'a pq)" by (simp add: heap_ordered_def new_pq_def)
  moreover have "distinct (heapArr (new_pq :: 'a pq))" by (simp add: new_pq_def)
  moreover have "\<forall>r \<in> set (heapArr (new_pq :: 'a pq)) \<union> deletedElements (new_pq :: 'a pq).
                   r < length (objs (new_pq :: 'a pq))" by (simp add: new_pq_def)
  ultimately show ?thesis using a by (rule heap_ordered_run)
qed

subsection \<open>The invocations of a callback\<close>



section \<open>The properties\<close>

text \<open>
  C8. \<open>totalProcessed\<close>, the count of everything ever inserted, never decreases: not
  across any single mutating call, whether it returns or throws, not across any sequence
  of them; and \<open>clear\<close> leaves it as it is while the length becomes 0. (The getters,
  \<open>at\<close> and \<open>positionOf\<close> write no field at all.)
\<close>

theorem totalProcessed_never_decreases:
  "totalProcessed s \<le> totalProcessed (step x s)
   \<and> totalProcessed s \<le> totalProcessed (run xs s)
   \<and> totalProcessed (clear s) = totalProcessed s
   \<and> length_pq (clear s) = 0"
proof -
  have "totalProcessed s \<le> totalProcessed (step x s)"
    unfolding totalProcessed_def by (rule counter_step)
  moreover have "totalProcessed s \<le> totalProcessed (run xs s)"
    unfolding totalProcessed_def by (rule counter_run)
  moreover have "totalProcessed (clear s) = totalProcessed s \<and> length_pq (clear s) = 0"
    by (simp add: totalProcessed_def length_pq_def clear_def)
  ultimately show ?thesis by simp
qed

text \<open>
  C10. \<open>clear\<close> empties \<open>heapArr\<close>, \<open>references\<close> and \<open>deletedElements\<close> alike. So
  for every object \<open>r\<close> the container had created before the \<open>clear\<close>, whether it was
  still queued or already removed, and after any further calls \<open>xs\<close>: \<open>positionOf\<close>,
  \<open>changePriority\<close> with a finite priority, and \<open>removeByRef\<close> all throw the
  ReferenceError that a never issued reference gets.
\<close>

theorem clear_forgets_every_reference:
  assumes "r < length (objs s)"
  shows "positionOf r (run xs (clear s)) = Inl ReferenceError
         \<and> fst (changePriority r (Num p) (run xs (clear s))) = Inl ReferenceError
         \<and> fst (removeByRef r (run xs (clear s))) = Inl ReferenceError"
proof -
  let ?t = "run xs (clear s)"
  have "r < length (objs (clear s))" and "r \<notin> set (heapArr (clear s))"
    and "r \<notin> references (clear s)" and "r \<notin> deletedElements (clear s)"
    using assms by (simp_all add: clear_def)
  then have u: "r \<notin> set (heapArr ?t) \<and> r \<notin> references ?t \<and> r \<notin> deletedElements ?t"
    by (rule unknown_run)
  then have "index_of (heapArr ?t) r = None" by (simp add: index_of_None)
  then have "positionOf r ?t = Inl ReferenceError"
    by (simp add: positionOf_def getIndexByReference_def)
  moreover from u have "fst (changePriority r (Num p) ?t) = Inl ReferenceError"
    by (simp add: changePriority_invalid)
  moreover from u have "fst (removeByRef r ?t) = Inl ReferenceError"
    by (simp add: removeByRef_invalid)
  ultimately show ?thesis by simp
qed

text \<open>
  An instance: \<open>a\<close> is removed and \<open>b\<close> is still queued when the queue is cleared.
  Before the \<open>clear\<close>, removing \<open>a\<close> again gave \<open>false\<close>; after it, and after one more
  insertion, both references are unknown.
\<close>

theorem clear_forgets_every_reference_witness:
  "fst (removeByRef 0 (run [Add ''a'' (Num 1), Add ''b'' (Num 2), RemoveByRef 0] new_pq))
     = Inr False
   \<and> (0::nat) < length (objs (run [Add ''a'' (Num 1), Add ''b'' (Num 2), RemoveByRef 0] new_pq))
   \<and> positionOf 0
        (run [Add ''c'' (Num 3)]
          (clear (run [Add ''a'' (Num 1), Add ''b'' (Num 2), RemoveByRef 0] new_pq)))
      = Inl ReferenceError
   \<and> fst (changePriority 0 (Num 5)
        (run [Add ''c'' (Num 3)]
          (clear (run [Add ''a'' (Num 1), Add ''b'' (Num 2), RemoveByRef 0] new_pq))))
      = Inl ReferenceError
   \<and> fst (removeByRef 0
        (run [Add ''c'' (Num 3)]
          (clear (run [Add ''a'' (Num 1), Add ''b'' (Num 2), RemoveByRef 0] new_pq))))
      = Inl ReferenceError"
proof -
  let ?s = "run [Add ''a'' (Num 1), Add ''b'' (Num 2), RemoveByRef 0] (new_pq :: string pq)"
  have h: "(0::nat) < length (objs ?s)" by code_simp
  have b: "fst (removeByRef 0 ?s) = Inr False" by code_simp
  from clear_forgets_every_reference [OF h, of "[Add ''c'' (Num 3)]" 5] h b
  show ?thesis by simp
qed

text \<open>
  C7. Let \<open>add\<close> return the reference \<open>r\<close>, and let any sequence \<open>xs\<close> of calls follow in
  which the entry is not dequeued by \<open>next\<close>, not removed by \<open>removeByRef\<close> or
  \<open>removeByPosition\<close>, and the queue is not cleared. Then \<open>positionOf r\<close> returns a rank
  \<open>k\<close> between 1 and the length, and \<open>at k\<close> gives back the reference \<open>r\<close> with the
  element that was inserted. Insertions, removals of other entries, priority changes
  (also of \<open>r\<close> itself) and calls that throw may all occur in \<open>xs\<close>.
\<close>

theorem reference_stays_resolvable:
  assumes "add e p s0 = (Inr r, s1)" and "keeps r xs s1"
  shows "\<exists>k. positionOf r (run xs s1) = Inr k \<and> 1 \<le> k \<and> k \<le> int (length_pq (run xs s1))
           \<and> at_pq (Num (real_of_int k)) (run xs s1) = Inr (Some (r, e))"
proof -
  from add_Inr [OF assms(1)] obtain x where
    r: "r = length (objs s0)" and s1: "s1 = step (Add e (Num x)) s0" by blast
  from step_Add_fields [of e x s0] r s1
  have q1: "r \<in> set (heapArr s1)" and o1: "objs s1 = objs s0 @ [\<lparr>element = e, priority = x\<rparr>]"
    by simp_all
  from o1 r have l1: "r < length (objs s1)" and e1: "element (objs s1 ! r) = e" by simp_all
  from kept_run [OF q1 assms(2)] have q: "r \<in> set (heapArr (run xs s1))" .
  from element_run [OF l1, of xs] e1 have el: "element (objs (run xs s1) ! r) = e" by simp
  from positionOf_queued [OF q] el show ?thesis by simp
qed

text \<open>
  An instance: \<open>a\<close> is inserted into the empty queue; then \<open>b\<close> is inserted above it and
  dequeued, \<open>c\<close> is inserted above it, its own priority is changed, and a removal at a
  position beyond the end is tried. \<open>a\<close> is then second in storage.
\<close>

theorem reference_stays_resolvable_witness:
  "add ''a'' (Num 1) new_pq = (Inr 0, snd (add ''a'' (Num 1) new_pq))
   \<and> keeps 0 [Add ''b'' (Num 5), Next, Add ''c'' (Num 9), ChangePriority 0 (Num 7),
               RemoveByPosition (Num 3)] (snd (add ''a'' (Num 1) new_pq))
   \<and> (\<exists>k. positionOf 0
             (run [Add ''b'' (Num 5), Next, Add ''c'' (Num 9), ChangePriority 0 (Num 7),
                   RemoveByPosition (Num 3)] (snd (add ''a'' (Num 1) new_pq))) = Inr k
          \<and> 1 \<le> k
          \<and> k \<le> int (length_pq
                 (run [Add ''b'' (Num 5), Next, Add ''c'' (Num 9), ChangePriority 0 (Num 7),
                       RemoveByPosition (Num 3)] (snd (add ''a'' (Num 1) new_pq))))
          \<and> at_pq (Num (real_of_int k))
               (run [Add ''b'' (Num 5), Next, Add ''c'' (Num 9), ChangePriority 0 (Num 7),
                     RemoveByPosition (Num 3)] (snd (add ''a'' (Num 1) new_pq)))
             = Inr (Some (0, ''a'')))"
proof -
  let ?s1 = "snd (add ''a'' (Num 1) (new_pq :: string pq))"
  let ?xs = "[Add ''b'' (Num 5), Next, Add ''c'' (Num 9), ChangePriority 0 (Num 7),
              RemoveByPosition (Num 3)] :: string op list"
  have a: "add ''a'' (Num 1) new_pq = (Inr 0, ?s1)" by code_simp
  have k: "keeps 0 ?xs ?s1" by code_simp
  from reference_stays_resolvable [OF a k] a k show ?thesis by simp
qed

text \<open>
  C6, as the code has it. Let \<open>add\<close>, called in a state reached from the empty queue,
  return the reference \<open>r\<close>, and let calls \<open>xs1\<close> follow that do not take the entry out.
  Then \<open>removeByRef r\<close> returns \<open>true\<close>. After that removal, and also after a \<open>next\<close>
  that dequeues \<open>r\<close> from the root, every later \<open>removeByRef r\<close> returns \<open>false\<close>,
  throws nothing and changes nothing, whatever calls \<open>xs2\<close> come in between, as long as
  \<open>clear\<close> is not among them.
\<close>

theorem removeByRef_true_then_false_until_clear:
  assumes "add e p (run xs0 new_pq) = (Inr r, s1)" and "keeps r xs1 s1" and "Clear \<notin> set xs2"
  shows "fst (removeByRef r (run xs1 s1)) = Inr True
         \<and> removeByRef r (run xs2 (snd (removeByRef r (run xs1 s1))))
             = (Inr False, run xs2 (snd (removeByRef r (run xs1 s1))))
         \<and> (heapArr (run xs1 s1) ! 0 = r \<longrightarrow>
              removeByRef r (run xs2 (snd (next_pq (run xs1 s1))))
                = (Inr False, run xs2 (snd (next_pq (run xs1 s1)))))"
proof -
  let ?s0 = "run xs0 (new_pq :: 'a pq)"
  let ?t = "run xs1 s1"
  from add_Inr [OF assms(1)] obtain x where
    r: "r = length (objs ?s0)" and s1: "s1 = step (Add e (Num x)) ?s0" by blast
  have "\<forall>r \<in> set (heapArr (new_pq :: 'a pq)) \<union> deletedElements (new_pq :: 'a pq).
          r < length (objs (new_pq :: 'a pq))"
    by (simp add: new_pq_def)
  then have "\<forall>r \<in> set (heapArr ?s0) \<union> deletedElements ?s0. r < length (objs ?s0)"
    by (rule allocated_run)
  with r have "r \<notin> deletedElements ?s0" by auto
  with step_Add_fields [of e x ?s0] r s1
  have q1: "r \<in> set (heapArr s1)" and d1: "r \<notin> deletedElements s1" by simp_all
  from kept_run [OF q1 assms(2)] have q: "r \<in> set (heapArr ?t)" .
  from not_deleted_run [OF d1 assms(2)] have d: "r \<notin> deletedElements ?t" .
  from removeByRef_effect [OF d q] obtain i where
    rm: "removeByRef r ?t =
         (Inr True,
          ?t\<lparr>heapArr := splice1 i (heapArr ?t),
             prioritiesObj := decreasePriority (prio ?t r) (prioritiesObj ?t),
             deletedElements := insert r (deletedElements ?t)\<rparr>)" by blast
  then have first: "fst (removeByRef r ?t) = Inr True"
    and "r \<in> deletedElements (snd (removeByRef r ?t))" by simp_all
  then have "r \<in> deletedElements (run xs2 (snd (removeByRef r ?t)))"
    using assms(3) by (simp add: deleted_run)
  then have second: "removeByRef r (run xs2 (snd (removeByRef r ?t)))
             = (Inr False, run xs2 (snd (removeByRef r ?t)))"
    by (rule removeByRef_deleted)
  have third: "heapArr ?t ! 0 = r \<longrightarrow>
       removeByRef r (run xs2 (snd (next_pq ?t))) = (Inr False, run xs2 (snd (next_pq ?t)))"
  proof
    assume root: "heapArr ?t ! 0 = r"
    from q have ne: "heapArr ?t \<noteq> []" by auto
    from step_Next_fields [OF ne] root have "r \<in> deletedElements (step Next ?t)" by simp
    then have "r \<in> deletedElements (snd (next_pq ?t))" by (simp add: step.simps)
    then have "r \<in> deletedElements (run xs2 (snd (next_pq ?t)))"
      using assms(3) by (simp add: deleted_run)
    then show "removeByRef r (run xs2 (snd (next_pq ?t))) = (Inr False, run xs2 (snd (next_pq ?t)))"
      by (rule removeByRef_deleted)
  qed
  from first second third show ?thesis by simp
qed

text \<open>
  An instance: \<open>b\<close> is inserted after \<open>a\<close> and moves to the root; another entry is
  inserted and a priority is changed before the first removal, and two more calls,
  neither of them \<open>clear\<close>, come before the second one.
\<close>

theorem removeByRef_true_then_false_until_clear_witness:
  "add ''b'' (Num 2) (run [Add ''a'' (Num 1)] new_pq)
     = (Inr 1, snd (add ''b'' (Num 2) (run [Add ''a'' (Num 1)] new_pq)))
   \<and> keeps 1 [Add ''c'' (Num 0), ChangePriority 0 (Num 1.5)]
        (snd (add ''b'' (Num 2) (run [Add ''a'' (Num 1)] new_pq)))
   \<and> Clear \<notin> set [Next, Add ''d'' (Num 4)]
   \<and> heapArr (run [Add ''c'' (Num 0), ChangePriority 0 (Num 1.5)]
        (snd (add ''b'' (Num 2) (run [Add ''a'' (Num 1)] new_pq)))) ! 0 = 1
   \<and> fst (removeByRef 1
        (run [Add ''c'' (Num 0), ChangePriority 0 (Num 1.5)]
          (snd (add ''b'' (Num 2) (run [Add ''a'' (Num 1)] new_pq))))) = Inr True
   \<and> fst (removeByRef 1
        (run [Next, Add ''d'' (Num 4)]
          (snd (removeByRef 1
            (run [Add ''c'' (Num 0), ChangePriority 0 (Num 1.5)]
              (snd (add ''b'' (Num 2) (run [Add ''a'' (Num 1)] new_pq)))))))) = Inr False
   \<and> fst (removeByRef 1
        (run [Next, Add ''d'' (Num 4)]
          (snd (next_pq
            (run [Add ''c'' (Num 0), ChangePriority 0 (Num 1.5)]
              (snd (add ''b'' (Num 2) (run [Add ''a'' (Num 1)] new_pq)))))))) = Inr False"
proof -
  let ?s1 = "snd (add ''b'' (Num 2) (run [Add ''a'' (Num 1)] (new_pq :: string pq)))"
  let ?xs1 = "[Add ''c'' (Num 0), ChangePriority 0 (Num 1.5)] :: string op list"
  let ?xs2 = "[Next, Add ''d'' (Num 4)] :: string op list"
  have a: "add ''b'' (Num 2) (run [Add ''a'' (Num 1)] new_pq) = (Inr 1, ?s1)" by code_simp
  have k: "keeps 1 ?xs1 ?s1" by code_simp
  have c: "Clear \<notin> set ?xs2" by simp
  have root: "heapArr (run ?xs1 ?s1) ! 0 = 1" by code_simp
  from removeByRef_true_then_false_until_clear [OF a k c] a k c root show ?thesis by simp
qed

text \<open>
  Without the proviso on \<open>clear\<close> the property fails: when \<open>clear\<close> comes between
  the two removals, the first \<open>removeByRef\<close> returns \<open>true\<close> and the second one throws.
\<close>

theorem removeByRef_after_clear_counterexample:
  "fst (removeByRef 0 (run [Add ''a'' (Num 1)] new_pq)) = Inr True
   \<and> fst (removeByRef 0 (run [Add ''a'' (Num 1), RemoveByRef 0, Clear] new_pq))
       = Inl ReferenceError"
  by code_simp





text \<open>
  C1. \<open>removeByRef\<close> takes the entry out with \<open>splice\<close> and does not sift: after
  inserting \<open>a\<close>, \<open>b\<close>, \<open>c\<close> with priorities 3, 1, 2 the storage is heap ordered;
  removing \<open>a\<close> returns \<open>true\<close> and leaves \<open>b, c\<close>, where the root has a smaller priority
  than its child, and \<open>front\<close> is \<open>b\<close> although \<open>c\<close> has the higher priority.
\<close>

theorem removeByRef_breaks_heap_order:
  "heap_ordered (run [Add ''a'' (Num 3), Add ''b'' (Num 1), Add ''c'' (Num 2)] new_pq)
   \<and> fst (removeByRef 0 (run [Add ''a'' (Num 3), Add ''b'' (Num 1), Add ''c'' (Num 2)] new_pq))
       = Inr True
   \<and> heapArr (run [Add ''a'' (Num 3), Add ''b'' (Num 1), Add ''c'' (Num 2), RemoveByRef 0] new_pq)
       = [1, 2]
   \<and> \<not> heap_ordered
         (run [Add ''a'' (Num 3), Add ''b'' (Num 1), Add ''c'' (Num 2), RemoveByRef 0] new_pq)
   \<and> front (run [Add ''a'' (Num 3), Add ''b'' (Num 1), Add ''c'' (Num 2), RemoveByRef 0] new_pq)
       = Some ''b''"
  by code_simp

text \<open>
  C2. On a queue of one entry \<open>next\<close> returns the element but the entry stays in the
  storage array: the length is 1 before and after, and \<open>front\<close> and a second \<open>next\<close>
  give the same element again.
\<close>

theorem next_on_single_entry_keeps_it:
  "length_pq (run [Add ''a'' (Num 1)] new_pq) = 1
   \<and> fst (next_pq (run [Add ''a'' (Num 1)] new_pq)) = Inr (Some ''a'')
   \<and> length_pq (snd (next_pq (run [Add ''a'' (Num 1)] new_pq))) = 1
   \<and> front (snd (next_pq (run [Add ''a'' (Num 1)] new_pq))) = Some ''a''
   \<and> fst (next_pq (snd (next_pq (run [Add ''a'' (Num 1)] new_pq)))) = Inr (Some ''a'')"
  by code_simp

text \<open>
  C3. After inserting one entry and calling \<open>next\<close>, the histogram is empty, its sum
  is 0, and the length is 1. And after inserting one entry, removing it by reference and
  changing its priority to the value it has, the histogram counts one entry and the
  length is 0.
\<close>

theorem histogram_sum_differs_from_length:
  "stats (run [Add ''a'' (Num 1), Next] new_pq) = []
   \<and> stats_sum (stats (run [Add ''a'' (Num 1), Next] new_pq)) = Cnt 0
   \<and> length_pq (run [Add ''a'' (Num 1), Next] new_pq) = 1
   \<and> stats_sum (stats (run [Add ''a'' (Num 1), RemoveByRef 0, ChangePriority 0 (Num 1)] new_pq))
       = Cnt 1
   \<and> length_pq (run [Add ''a'' (Num 1), RemoveByRef 0, ChangePriority 0 (Num 1)] new_pq) = 0"
  by code_simp

text \<open>
  C4. \<open>removeByRef\<close> does not delete the reference from \<open>references\<close>, so
  \<open>changePriority\<close> on a reference removed that way passes the check: with the priority
  unchanged it returns 0, with another priority it throws a TypeError out of the sift.
\<close>

theorem changePriority_on_removed_reference:
  "length_pq (run [Add ''a'' (Num 1), RemoveByRef 0] new_pq) = 0
   \<and> fst (changePriority 0 (Num 1) (run [Add ''a'' (Num 1), RemoveByRef 0] new_pq)) = Inr 0
   \<and> fst (changePriority 0 (Num 2) (run [Add ''a'' (Num 1), RemoveByRef 0] new_pq))
       = Inl TypeError
   \<and> fst (changePriority 0 (Num 0) (run [Add ''a'' (Num 1), RemoveByRef 0] new_pq))
       = Inl TypeError"
  by code_simp

text \<open>
  C5. \<open>positionOf\<close> throws a ReferenceError for a reference that was issued and has
  since been removed by \<open>removeByRef\<close> or dequeued by \<open>next\<close>; it never returns \<open>-1\<close>.
\<close>

theorem positionOf_throws_for_removed_reference:
  "fst (removeByRef 0 (run [Add ''a'' (Num 1), Add ''b'' (Num 2)] new_pq)) = Inr True
   \<and> positionOf 0 (run [Add ''a'' (Num 1), Add ''b'' (Num 2), RemoveByRef 0] new_pq)
       = Inl ReferenceError
   \<and> fst (next_pq (run [Add ''a'' (Num 1), Add ''b'' (Num 2)] new_pq)) = Inr (Some ''b'')
   \<and> positionOf 1 (run [Add ''a'' (Num 1), Add ''b'' (Num 2), Next] new_pq)
       = Inl ReferenceError"
  by code_simp

end
